theory Spec2Isabelle
  imports Complex_Main "HOL-Library.AList"
begin

section \<open>Numbers and constants\<close>

text \<open>
  Step indices, step counts and MIDI notes are natural numbers. The two constants are the
  first two lines of \<^verbatim>\<open>launchpad35.js\<close>.
\<close>

definition BEAT_STEPS :: nat where
  "BEAT_STEPS = 32"

definition STEPS_PER_QUARTER :: nat where
  "STEPS_PER_QUARTER = 8"

subsection \<open>Double-precision numbers\<close>

text \<open>
  The numbers of the clock are IEEE 754 binary64 values: a finite number is the real number
  it denotes, and every arithmetic operation returns the exact result rounded to the
  nearest number with a 53-bit significand, ties to the even significand.

  \<open>round_half_even\<close> rounds a real to the nearest integer, ties to even.
\<close>

definition round_half_even :: "real \<Rightarrow> int" where
  "round_half_even y =
     (let f = \<lfloor>y\<rfloor>; r = y - of_int f
      in if r < 1/2 then f else if 1/2 < r then f + 1 else if even f then f else f + 1)"

text \<open>
  The binary exponent of a positive number, found by repeated doubling (below 1) or
  halving (from 2 up): \<open>scale_up 0 x\<close> is the least \<open>k\<close> with \<open>1 \<le> x * 2 ^ k\<close>, at most
  1022 (the exponent of the subnormal numbers), and \<open>scale_down 0 x\<close> is the least \<open>k\<close>
  with \<open>x / 2 ^ k < 2\<close>, at most 1024 (where every result overflows).
\<close>

function scale_up :: "nat \<Rightarrow> real \<Rightarrow> nat" where
  "scale_up k x = (if 1 \<le> x \<or> 1022 \<le> k then k else scale_up (k + 1) (2 * x))"
  by pat_completeness auto
termination
  by (relation "measure (\<lambda>(k, x). 1022 - k)") auto

function scale_down :: "nat \<Rightarrow> real \<Rightarrow> nat" where
  "scale_down k x = (if x < 2 \<or> 1024 \<le> k then k else scale_down (k + 1) (x / 2))"
  by pat_completeness auto
termination
  by (relation "measure (\<lambda>(k, x). 1024 - k)") auto

declare scale_up.simps [simp del] scale_down.simps [simp del]

text \<open>
  The unit in the last place at \<open>x\<close>: the spacing of the binary64 numbers in the binade of
  \<open>x\<close>, which is \<open>2 ^ (e - 52)\<close> for \<open>2 ^ e \<le> \<bar>x\<bar> < 2 ^ (e + 1)\<close> and \<open>2 ^ - 1074\<close> below
  \<open>2 ^ - 1022\<close>. \<open>round53 x\<close> is the multiple of it nearest to \<open>x\<close>.
\<close>

definition ulp :: "real \<Rightarrow> real" where
  "ulp x = (if 1 \<le> \<bar>x\<bar> then 2 ^ scale_down 0 \<bar>x\<bar> / 2 ^ 52
            else 1 / 2 ^ (scale_up 0 \<bar>x\<bar> + 52))"

definition round53 :: "real \<Rightarrow> real" where
  "round53 x = of_int (round_half_even (x / ulp x)) * ulp x"

text \<open>\<^verbatim>\<open>Number.MAX_VALUE\<close>, the largest finite number.\<close>

definition MAX_VALUE :: real where
  "MAX_VALUE = (2 ^ 53 - 1) * 2 ^ 971"

text \<open>
  A JavaScript number. The sign of a zero is not kept: \<open>Num 0\<close> stands for \<^verbatim>\<open>+0\<close>.
\<close>

datatype jsnum = Num real | PosInf | NegInf | NaN

text \<open>
  The number that an exact result \<open>x\<close> becomes: the nearest binary64 number, an infinity
  when that is beyond the largest finite one. It is also the value of a decimal literal.
\<close>

definition fl :: "real \<Rightarrow> jsnum" where
  "fl x = (let r = round53 x
           in if MAX_VALUE < r then PosInf else if r < - MAX_VALUE then NegInf else Num r)"

text \<open>The operators \<^verbatim>\<open>+\<close>, unary \<^verbatim>\<open>-\<close>, binary \<^verbatim>\<open>-\<close>, \<^verbatim>\<open>*\<close> and \<^verbatim>\<open>/\<close>.\<close>

fun js_add :: "jsnum \<Rightarrow> jsnum \<Rightarrow> jsnum" where
  "js_add (Num x) (Num y) = fl (x + y)"
| "js_add (Num x) PosInf = PosInf"
| "js_add (Num x) NegInf = NegInf"
| "js_add PosInf (Num y) = PosInf"
| "js_add PosInf PosInf = PosInf"
| "js_add NegInf (Num y) = NegInf"
| "js_add NegInf NegInf = NegInf"
| "js_add PosInf NegInf = NaN"
| "js_add NegInf PosInf = NaN"
| "js_add NaN b = NaN"
| "js_add a NaN = NaN"

fun js_neg :: "jsnum \<Rightarrow> jsnum" where
  "js_neg (Num x) = Num (- x)"
| "js_neg PosInf = NegInf"
| "js_neg NegInf = PosInf"
| "js_neg NaN = NaN"

definition js_sub :: "jsnum \<Rightarrow> jsnum \<Rightarrow> jsnum" where
  "js_sub a b = js_add a (js_neg b)"

text \<open>An infinity of the sign of \<open>x\<close>, for a finite \<open>x\<close> other than zero.\<close>

definition js_inf :: "real \<Rightarrow> jsnum" where
  "js_inf x = (if 0 < x then PosInf else NegInf)"

fun js_mul :: "jsnum \<Rightarrow> jsnum \<Rightarrow> jsnum" where
  "js_mul (Num x) (Num y) = fl (x * y)"
| "js_mul (Num x) PosInf = (if x = 0 then NaN else js_inf x)"
| "js_mul (Num x) NegInf = (if x = 0 then NaN else js_inf (- x))"
| "js_mul PosInf (Num y) = (if y = 0 then NaN else js_inf y)"
| "js_mul NegInf (Num y) = (if y = 0 then NaN else js_inf (- y))"
| "js_mul PosInf PosInf = PosInf"
| "js_mul NegInf NegInf = PosInf"
| "js_mul PosInf NegInf = NegInf"
| "js_mul NegInf PosInf = NegInf"
| "js_mul NaN b = NaN"
| "js_mul a NaN = NaN"

fun js_div :: "jsnum \<Rightarrow> jsnum \<Rightarrow> jsnum" where
  "js_div (Num x) (Num y) =
     (if y = 0 then (if x = 0 then NaN else js_inf x) else fl (x / y))"
| "js_div (Num x) PosInf = Num 0"
| "js_div (Num x) NegInf = Num 0"
| "js_div PosInf (Num y) = (if 0 \<le> y then PosInf else NegInf)"
| "js_div NegInf (Num y) = (if 0 \<le> y then NegInf else PosInf)"
| "js_div PosInf PosInf = NaN"
| "js_div PosInf NegInf = NaN"
| "js_div NegInf PosInf = NaN"
| "js_div NegInf NegInf = NaN"
| "js_div NaN b = NaN"
| "js_div a NaN = NaN"

text \<open>The comparisons \<^verbatim>\<open><\<close> and \<^verbatim>\<open>>\<close>: false as soon as an operand is NaN.\<close>

fun js_lt :: "jsnum \<Rightarrow> jsnum \<Rightarrow> bool" where
  "js_lt (Num x) (Num y) = (x < y)"
| "js_lt (Num x) PosInf = True"
| "js_lt NegInf (Num y) = True"
| "js_lt NegInf PosInf = True"
| "js_lt a b = False"

definition js_gt :: "jsnum \<Rightarrow> jsnum \<Rightarrow> bool" where
  "js_gt a b = js_lt b a"

text \<open>\<^verbatim>\<open>Math.abs\<close>, and \<^verbatim>\<open>Math.max\<close> and \<^verbatim>\<open>Math.min\<close> of two arguments: NaN when an argument is NaN.\<close>

fun js_abs :: "jsnum \<Rightarrow> jsnum" where
  "js_abs (Num x) = Num \<bar>x\<bar>"
| "js_abs PosInf = PosInf"
| "js_abs NegInf = PosInf"
| "js_abs NaN = NaN"

definition js_max :: "jsnum \<Rightarrow> jsnum \<Rightarrow> jsnum" where
  "js_max a b = (if a = NaN \<or> b = NaN then NaN else if js_lt a b then b else a)"

definition js_min :: "jsnum \<Rightarrow> jsnum \<Rightarrow> jsnum" where
  "js_min a b = (if a = NaN \<or> b = NaN then NaN else if js_lt b a then b else a)"

section \<open>The precision clock (launchpad35.js, class Clock)\<close>

text \<open>
  The fields of the class that the scheduling code reads or writes. Three fields make the
  host's deferred callbacks explicit:
  \<^item> \<open>pending\<close> counts the \<^verbatim>\<open>setTimeout\<close> callbacks armed by \<^verbatim>\<open>scheduleAhead\<close> that have
    not fired yet (the handle kept in \<^verbatim>\<open>this.scheduleTimeout\<close> is overwritten by each
    pass and no code of the class passes it to \<^verbatim>\<open>clearTimeout\<close>);
  \<^item> \<open>ticks\<close> lists the steps of the visual callbacks armed by \<^verbatim>\<open>scheduleStep\<close> that have
    not fired yet (their ids are kept in \<^verbatim>\<open>scheduledNotes\<close>, which is only ever cleared);
  \<^item> \<open>recalibrationInterval\<close> tells whether the 5-second interval of
    \<^verbatim>\<open>startRecalibrationInterval\<close> is armed (the field of that name holds its handle).

  The map \<^verbatim>\<open>scheduledEvents\<close> is filled by \<^verbatim>\<open>scheduleNextBatch\<close> alone, which nothing
  calls, so it stays empty and \<^verbatim>\<open>clearScheduledEvents\<close> has no timer to cancel.
\<close>

record clock =
  bpm :: jsnum
  isPlaying :: bool
  currentStep :: nat
  nextStepTime :: jsnum
  stepDuration :: jsnum
  pending :: nat
  ticks :: "nat list"
  recalibrationInterval :: bool

text \<open>A step event: the payload handed to the pattern callback, (step index, target time).\<close>

type_synonym step_event = "nat \<times> jsnum"

definition calculateStepDuration :: "jsnum \<Rightarrow> jsnum" where
  "calculateStepDuration b =
     (let beatsPerSecond = js_div b (Num 60)
      in js_div (Num 1) (js_mul beatsPerSecond (Num (real STEPS_PER_QUARTER))))"

text \<open>
  The constructor. Its last line, the call of \<^verbatim>\<open>startRecalibrationInterval()\<close>, is commented
  out, so the interval is not armed.
\<close>

definition new_Clock :: "jsnum \<Rightarrow> clock" where
  "new_Clock b =
     \<lparr>bpm = b, isPlaying = False, currentStep = 0, nextStepTime = Num 0,
      stepDuration = calculateStepDuration b, pending = 0, ticks = [],
      recalibrationInterval = False\<rparr>"

definition clearScheduledEvents :: "clock \<Rightarrow> clock" where
  "clearScheduledEvents c = c"

text \<open>
  \<^verbatim>\<open>scheduleStep\<close> returns at once when the clock is not playing. Otherwise it calls the
  pattern callback with (step, time) and arms one deferred visual callback for the step
  (a timeout when the step is in the future, an animation frame otherwise).
\<close>

definition scheduleStep :: "nat \<Rightarrow> jsnum \<Rightarrow> clock \<Rightarrow> clock \<times> step_event list" where
  "scheduleStep step time c =
     (if \<not> isPlaying c then (c, [])
      else (c\<lparr>ticks := ticks c @ [step]\<rparr>, [(step, time)]))"

definition advanceStep :: "clock \<Rightarrow> clock" where
  "advanceStep c =
     c\<lparr>nextStepTime := js_add (nextStepTime c) (stepDuration c),
       currentStep := (currentStep c + 1) mod BEAT_STEPS\<rparr>"

text \<open>
  The \<^verbatim>\<open>while\<close> loop of \<^verbatim>\<open>scheduleAhead\<close>. It does not return when the window is not yet
  filled and adding the step duration does not move the next step time forward (a step
  duration that is not positive, or too small to change the sum); that is the value \<open>None\<close>.
\<close>

partial_function (option) scheduleLoop ::
  "jsnum \<Rightarrow> clock \<Rightarrow> step_event list \<Rightarrow> (clock \<times> step_event list) option" where
  "scheduleLoop endTime c evs =
     (if js_lt (nextStepTime c) endTime
      then (case scheduleStep (currentStep c) (nextStepTime c) c of
              (c1, new) \<Rightarrow> scheduleLoop endTime (advanceStep c1) (evs @ new))
      else Some (c, evs))"

declare scheduleLoop.simps [code]

text \<open>
  One scheduling pass at audio-clock time \<open>now\<close> (the value of
  \<^verbatim>\<open>audioContext.currentTime\<close>, a finite number): fill the 200 ms window, then, when
  playing, arm the next pass (80 percent of the window later).
\<close>

definition scheduleAhead :: "real \<Rightarrow> clock \<Rightarrow> (clock \<times> step_event list) option" where
  "scheduleAhead now c =
     (let currentTime = Num now;
          endTime = js_add currentTime (fl 0.2)
      in case scheduleLoop endTime c [] of
           None \<Rightarrow> None
         | Some (c1, evs) \<Rightarrow>
             Some (if isPlaying c1 then c1\<lparr>pending := pending c1 + 1\<rparr> else c1, evs))"

definition setBPM :: "jsnum \<Rightarrow> real \<Rightarrow> clock \<Rightarrow> (clock \<times> step_event list) option" where
  "setBPM b now c =
     (let prevBpm = bpm c;
          c1 = c\<lparr>bpm := js_max (Num 40) (js_min (Num 240) b)\<rparr>;
          c2 = c1\<lparr>stepDuration := calculateStepDuration (bpm c1)\<rparr>
      in if isPlaying c2 \<and> js_gt (js_abs (js_sub prevBpm (bpm c2))) (Num 5)
         then scheduleAhead now (clearScheduledEvents c2)
         else Some (c2, []))"

definition start :: "real \<Rightarrow> clock \<Rightarrow> (clock \<times> step_event list) option" where
  "start now c =
     (if isPlaying c then Some (c, [])
      else scheduleAhead now
             (c\<lparr>isPlaying := True, currentStep := 0, nextStepTime := Num now\<rparr>))"

definition stop :: "clock \<Rightarrow> clock" where
  "stop c = clearScheduledEvents (c\<lparr>isPlaying := False, currentStep := 0\<rparr>)"

definition recalibrate :: "real \<Rightarrow> clock \<Rightarrow> clock" where
  "recalibrate now c =
     (let audioTime = Num now;
          expectedTime = js_sub (nextStepTime c) (stepDuration c);
          drift = js_sub expectedTime audioTime
      in if js_gt (js_abs drift) (fl 0.05)
         then c\<lparr>nextStepTime := js_add audioTime (stepDuration c)\<rparr>
         else c)"

definition startRecalibrationInterval :: "clock \<Rightarrow> clock" where
  "startRecalibrationInterval c = c\<lparr>recalibrationInterval := True\<rparr>"

text \<open>
  The host fires one armed reschedule callback at time \<open>now\<close>: the callback body is a
  call of \<^verbatim>\<open>scheduleAhead\<close>, whatever the playing flag is. With nothing armed, nothing
  happens.
\<close>

definition fireTimeout :: "real \<Rightarrow> clock \<Rightarrow> (clock \<times> step_event list) option" where
  "fireTimeout now c =
     (if pending c = 0 then Some (c, [])
      else scheduleAhead now (c\<lparr>pending := pending c - 1\<rparr>))"

text \<open>
  The host fires the oldest armed visual callback: the step reaches the tick subscribers
  only when the clock is playing at that moment.
\<close>

definition fireTick :: "clock \<Rightarrow> clock \<times> nat list" where
  "fireTick c =
     (case ticks c of
        [] \<Rightarrow> (c, [])
      | s # rest \<Rightarrow> (c\<lparr>ticks := rest\<rparr>, if isPlaying c then [s] else []))"

text \<open>
  The host reaches a multiple of 5 seconds at time \<open>now\<close>: the callback of the interval runs
  when the interval is armed, and calls \<^verbatim>\<open>recalibrate()\<close> when the clock is playing.
\<close>

definition fireInterval :: "real \<Rightarrow> clock \<Rightarrow> clock" where
  "fireInterval now c =
     (if recalibrationInterval c \<and> isPlaying c then recalibrate now c else c)"

subsection \<open>Runs of the clock\<close>

text \<open>
  What happens to a clock, one event at a time: the calls of \<^verbatim>\<open>start()\<close>, \<^verbatim>\<open>stop()\<close> and
  \<^verbatim>\<open>setBPM(bpm)\<close>, the firing of an armed reschedule callback, the 5-second mark of the
  host's timer, and the audio context's state-change handler of the application, which
  calls \<^verbatim>\<open>recalibrate()\<close> when the clock is playing. Each event carries the audio-clock
  time at which it happens where the code reads that time.
\<close>

datatype clock_op =
  Start real | Stop | Fire real | SetBPM jsnum real | Recalibrate real | Interval real

fun clock_step :: "clock_op \<Rightarrow> clock \<Rightarrow> (clock \<times> step_event list) option" where
  "clock_step (Start now) c = start now c"
| "clock_step Stop c = Some (stop c, [])"
| "clock_step (Fire now) c = fireTimeout now c"
| "clock_step (SetBPM b now) c = setBPM b now c"
| "clock_step (Recalibrate now) c =
     Some (if isPlaying c then recalibrate now c else c, [])"
| "clock_step (Interval now) c = Some (fireInterval now c, [])"

fun clock_run :: "clock_op list \<Rightarrow> clock \<Rightarrow> (clock \<times> step_event list) option" where
  "clock_run [] c = Some (c, [])"
| "clock_run (x # xs) c =
     (case clock_step x c of
        None \<Rightarrow> None
      | Some (c1, evs) \<Rightarrow>
          (case clock_run xs c1 of
             None \<Rightarrow> None
           | Some (c2, evs') \<Rightarrow> Some (c2, evs @ evs')))"

subsection \<open>The grid of step events\<close>

text \<open>
  \<open>grid_time d t k\<close> is the time reached from \<open>t\<close> by \<open>k\<close> double-precision additions of
  \<open>d\<close>, each sum rounded. \<open>steps_from s t d n\<close> is the list of \<open>n\<close> step events that starts
  at step \<open>s\<close> and time \<open>t\<close>: event \<open>k\<close> has step \<open>(s + k) mod BEAT_STEPS\<close> and time
  \<open>grid_time d t k\<close>.
\<close>

fun grid_time :: "real \<Rightarrow> real \<Rightarrow> nat \<Rightarrow> real" where
  "grid_time d t 0 = t"
| "grid_time d t (Suc k) = round53 (grid_time d t k + d)"

definition steps_from :: "nat \<Rightarrow> real \<Rightarrow> real \<Rightarrow> nat \<Rightarrow> step_event list" where
  "steps_from s t d n = map (\<lambda>k. ((s + k) mod BEAT_STEPS, Num (grid_time d t k))) [0..<n]"

section \<open>The beat sequencer's tempo (launchpad37.js, class BeatSequencer)\<close>

record sequencer =
  seq_bpm :: jsnum
  seq_isPlaying :: bool
  stepInterval :: jsnum

definition new_BeatSequencer :: sequencer where
  "new_BeatSequencer = \<lparr>seq_bpm = Num 120, seq_isPlaying = False, stepInterval = Num 0\<rparr>"

definition setTempo :: "jsnum \<Rightarrow> sequencer \<Rightarrow> sequencer" where
  "setTempo b s =
     (let s1 = s\<lparr>seq_bpm := js_max (Num 40) (js_min (Num 300) b)\<rparr>
      in if seq_isPlaying s1
         then s1\<lparr>stepInterval := js_div (js_div (Num 60) (seq_bpm s1)) (Num 4)\<rparr>
         else s1)"

section \<open>JavaScript arrays and maps\<close>

text \<open>
  An array is a list of cells; a cell is \<open>None\<close> where the array has a hole or holds
  \<^verbatim>\<open>undefined\<close>. Reading past the end gives \<^verbatim>\<open>undefined\<close>; writing at an index past the
  end extends the array, leaving holes in between; writing at a negative index sets a
  property and leaves the elements as they are.
\<close>

type_synonym midi_note = nat

definition js_get :: "'a option list \<Rightarrow> nat \<Rightarrow> 'a option" where
  "js_get xs i = (if i < length xs then xs ! i else None)"

definition js_put :: "'a option list \<Rightarrow> nat \<Rightarrow> 'a option \<Rightarrow> 'a option list" where
  "js_put xs i v =
     (if i < length xs then xs[i := v] else xs @ replicate (i - length xs) None @ [v])"

definition js_put_int :: "'a option list \<Rightarrow> int \<Rightarrow> 'a option \<Rightarrow> 'a option list" where
  "js_put_int xs k v = (if k < 0 then xs else js_put xs (nat k) v)"

definition js_fill :: "'a option list \<Rightarrow> 'a \<Rightarrow> 'a option list" where
  "js_fill xs v = map (\<lambda>_. Some v) xs"

definition new_Array_fill :: "nat \<Rightarrow> 'a \<Rightarrow> 'a option list" where
  "new_Array_fill n v = replicate n (Some v)"

text \<open>The remainder operator of JavaScript takes the sign of the dividend.\<close>

definition js_rem :: "int \<Rightarrow> int \<Rightarrow> int" where
  "js_rem a b = sgn a * (\<bar>a\<bar> mod \<bar>b\<bar>)"

text \<open>
  A \<^verbatim>\<open>Map\<close> is the list of its entries in insertion order: \<^const>\<open>map_of\<close> is \<^verbatim>\<open>get\<close>,
  \<^const>\<open>AList.update\<close> is \<^verbatim>\<open>set\<close> (a present key keeps its place, a new key goes to the
  end), and \<^verbatim>\<open>new Map(entries)\<close> sets the entries one after the other.
\<close>

definition Map_of_entries :: "('k \<times> 'v) list \<Rightarrow> ('k \<times> 'v) list" where
  "Map_of_entries es = fold (\<lambda>(k, v) m. AList.update k v m) es []"

datatype failure = TypeError | RangeError | NonIntegerSteps

section \<open>Patterns (launchpad35.js, class Pattern)\<close>

record timing =
  swing :: real
  humanize :: real
  timing_stepDuration :: real

text \<open>
  The field \<open>pid\<close> is the \<^verbatim>\<open>id\<close> of the class. \<^verbatim>\<open>Date.now().toString()\<close> is a
  parameter \<open>stamp\<close> of the operations that read the wall clock.
\<close>

record pattern =
  steps :: nat
  name :: string
  tracks :: "(midi_note \<times> nat option list) list"
  velocities :: "(midi_note \<times> real option list) list"
  pid :: string
  isNew :: bool
  manuallyTriggeredNotes :: "midi_note set"
  lastStepTriggered :: int
  timing :: timing

definition new_Pattern :: "nat \<Rightarrow> string \<Rightarrow> string \<Rightarrow> pattern" where
  "new_Pattern st nm stamp =
     \<lparr>steps = st, name = nm, tracks = [], velocities = [], pid = stamp, isNew = True,
      manuallyTriggeredNotes = {}, lastStepTriggered = - 1,
      timing = \<lparr>swing = 0, humanize = 0, timing_stepDuration = 0\<rparr>\<rparr>"

definition addTrack :: "midi_note \<Rightarrow> pattern \<Rightarrow> pattern" where
  "addTrack n p =
     (if map_of (tracks p) n = None
      then p\<lparr>tracks := AList.update n (new_Array_fill (steps p) 0) (tracks p),
             velocities := AList.update n (new_Array_fill (steps p) 1) (velocities p)\<rparr>
      else p)"

text \<open>
  \<^verbatim>\<open>recordNote\<close> writes at \<open>step\<close> without looking at the step count. The write to the
  velocity array raises \<^verbatim>\<open>TypeError\<close> when the note has a track and no velocity array.
\<close>

definition recordNote :: "midi_note \<Rightarrow> nat \<Rightarrow> real \<Rightarrow> pattern \<Rightarrow> failure + pattern" where
  "recordNote n step velocity p =
     (let p1 = (if map_of (tracks p) n = None
                then p\<lparr>tracks := AList.update n (new_Array_fill (steps p) 0) (tracks p),
                       velocities := AList.update n (new_Array_fill (steps p) 1) (velocities p)\<rparr>
                else p)
      in case map_of (tracks p1) n of
           None \<Rightarrow> Inl TypeError
         | Some tr \<Rightarrow>
             (let p2 = p1\<lparr>tracks := AList.update n (js_put tr step (Some 1)) (tracks p1)\<rparr>;
                  clampedVelocity = max 0.1 (min 1.0 velocity)
              in case map_of (velocities p2) n of
                   None \<Rightarrow> Inl TypeError
                 | Some ve \<Rightarrow>
                     Inr (p2\<lparr>velocities :=
                            AList.update n (js_put ve step (Some clampedVelocity))
                              (velocities p2)\<rparr>)))"

definition clearTriggeredNotesIfNeeded :: "nat \<Rightarrow> pattern \<Rightarrow> pattern" where
  "clearTriggeredNotesIfNeeded step p =
     (if lastStepTriggered p \<noteq> int step
      then p\<lparr>manuallyTriggeredNotes := {}, lastStepTriggered := int step\<rparr>
      else p)"

definition getStep :: "pattern \<Rightarrow> midi_note \<Rightarrow> nat \<Rightarrow> nat" where
  "getStep p n step =
     (case map_of (tracks p) n of
        None \<Rightarrow> 0
      | Some tr \<Rightarrow> (case js_get tr step of None \<Rightarrow> 0 | Some v \<Rightarrow> v))"

definition getVelocity :: "pattern \<Rightarrow> midi_note \<Rightarrow> nat \<Rightarrow> real" where
  "getVelocity p n step =
     (case map_of (velocities p) n of
        None \<Rightarrow> 1.0
      | Some ve \<Rightarrow> (case js_get ve step of None \<Rightarrow> 1.0 | Some v \<Rightarrow> v))"

text \<open>The object \<^verbatim>\<open>{active, velocity}\<close> as a pair.\<close>

definition getNoteParams :: "pattern \<Rightarrow> midi_note \<Rightarrow> nat \<Rightarrow> bool \<times> real" where
  "getNoteParams p n step = (getStep p n step > 0, getVelocity p n step)"

definition clear :: "pattern \<Rightarrow> pattern" where
  "clear p =
     p\<lparr>tracks := map (\<lambda>(n, tr). (n, js_fill tr 0)) (tracks p),
       velocities := map (\<lambda>(n, ve). (n, js_fill ve 1.0)) (velocities p)\<rparr>"

definition clearTrack :: "midi_note \<Rightarrow> pattern \<Rightarrow> failure + pattern" where
  "clearTrack n p =
     (case map_of (tracks p) n of
        None \<Rightarrow> Inr p
      | Some tr \<Rightarrow>
          (case map_of (velocities p) n of
             None \<Rightarrow> Inl TypeError
           | Some ve \<Rightarrow>
               Inr (p\<lparr>tracks := AList.update n (js_fill tr 0) (tracks p),
                      velocities := AList.update n (js_fill ve 1.0) (velocities p)\<rparr>)))"

subsection \<open>Serialization\<close>

text \<open>
  The record read by \<^verbatim>\<open>fromJSON\<close>; a field that may be absent or \<^verbatim>\<open>undefined\<close> is an
  option. Arrays and records are values here: the sharing of arrays between a pattern and
  the record made from it by \<^verbatim>\<open>toJSON\<close> is not modelled.
\<close>

record pattern_json =
  j_id :: "string option"
  j_name :: "string option"
  j_steps :: nat
  j_tracks :: "(midi_note \<times> nat option list) list"
  j_velocities :: "(midi_note \<times> real option list) list option"
  j_timing :: "timing option"
  j_isNew :: "bool option"

definition toJSON :: "pattern \<Rightarrow> pattern_json" where
  "toJSON p =
     \<lparr>j_id = Some (pid p), j_name = Some (name p), j_steps = steps p,
      j_tracks = tracks p, j_velocities = Some (velocities p),
      j_timing = Some (timing p), j_isNew = Some (isNew p)\<rparr>"

text \<open>\<^verbatim>\<open>s || d\<close> on a string that may be absent: the empty string is falsy.\<close>

definition or_default :: "string option \<Rightarrow> string \<Rightarrow> string" where
  "or_default s d = (case s of None \<Rightarrow> d | Some x \<Rightarrow> if x = [] then d else x)"

definition fromJSON :: "pattern_json \<Rightarrow> string \<Rightarrow> pattern \<Rightarrow> pattern" where
  "fromJSON data stamp p =
     (let p1 = p\<lparr>pid := or_default (j_id data) stamp,
                 name := or_default (j_name data) ''Untitled Pattern'',
                 steps := j_steps data,
                 tracks := Map_of_entries (j_tracks data),
                 isNew := (case j_isNew data of None \<Rightarrow> False | Some b \<Rightarrow> b)\<rparr>;
          p2 = (case j_velocities data of
                  Some vs \<Rightarrow> p1\<lparr>velocities := Map_of_entries vs\<rparr>
                | None \<Rightarrow>
                    p1\<lparr>velocities :=
                         fold (\<lambda>(n, track) m. AList.update n (new_Array_fill (steps p1) 1.0) m)
                           (tracks p1) []\<rparr>)
      in case j_timing data of None \<Rightarrow> p2 | Some t \<Rightarrow> p2\<lparr>timing := t\<rparr>)"

subsection \<open>Transformations\<close>

text \<open>
  \<^verbatim>\<open>this.tracks.forEach((track, note) => ...)\<close> with a body that builds a new track and a
  new velocity array for the note and stores both. The body reads the note's velocity
  array from the map as it is at that moment, and may raise.
\<close>

fun forEach_tracks ::
  "(nat option list \<Rightarrow> real option list option
      \<Rightarrow> failure + (nat option list \<times> real option list))
   \<Rightarrow> (midi_note \<times> nat option list) list
   \<Rightarrow> (midi_note \<times> nat option list) list \<times> (midi_note \<times> real option list) list
   \<Rightarrow> failure + ((midi_note \<times> nat option list) list \<times> (midi_note \<times> real option list) list)" where
  "forEach_tracks body [] tv = Inr tv"
| "forEach_tracks body ((n, track) # es) (ts, vs) =
     (case body track (map_of vs n) of
        Inl e \<Rightarrow> Inl e
      | Inr (newTrack, newVelocities) \<Rightarrow>
          forEach_tracks body es (AList.update n newTrack ts, AList.update n newVelocities vs))"

text \<open>
  The three loop bodies. Each starts from arrays filled with 0 and 1.0 and copies cell by
  cell; the first read of the velocity array raises \<^verbatim>\<open>TypeError\<close> when the note has none,
  so the error needs the loop to run at least once.
\<close>

definition shift_track ::
  "nat \<Rightarrow> int \<Rightarrow> nat option list \<Rightarrow> real option list option
   \<Rightarrow> failure + (nat option list \<times> real option list)" where
  "shift_track n amount track vopt =
     (if n = 0 then Inr (new_Array_fill n 0, new_Array_fill n 1.0)
      else case vopt of
             None \<Rightarrow> Inl TypeError
           | Some vel \<Rightarrow>
               Inr (fold (\<lambda>i (newTrack, newVelocities).
                            let newPos = js_rem (int i + amount + int n) (int n)
                            in (js_put_int newTrack newPos (js_get track i),
                                js_put_int newVelocities newPos (js_get vel i)))
                      [0..<n] (new_Array_fill n 0, new_Array_fill n 1.0)))"

definition shift :: "int \<Rightarrow> pattern \<Rightarrow> failure + pattern" where
  "shift amount p =
     (case forEach_tracks (shift_track (steps p) amount) (tracks p) (tracks p, velocities p) of
        Inl e \<Rightarrow> Inl e
      | Inr (ts, vs) \<Rightarrow> Inr (p\<lparr>tracks := ts, velocities := vs\<rparr>))"

definition double_track ::
  "nat \<Rightarrow> nat option list \<Rightarrow> real option list option
   \<Rightarrow> failure + (nat option list \<times> real option list)" where
  "double_track n track vopt =
     (if n = 0 then Inr (new_Array_fill (n * 2) 0, new_Array_fill (n * 2) 1.0)
      else case vopt of
             None \<Rightarrow> Inl TypeError
           | Some vel \<Rightarrow>
               Inr (fold (\<lambda>i (newTrack, newVelocities).
                            (js_put (js_put newTrack i (js_get track i)) (i + n) (js_get track i),
                             js_put (js_put newVelocities i (js_get vel i)) (i + n) (js_get vel i)))
                      [0..<n] (new_Array_fill (n * 2) 0, new_Array_fill (n * 2) 1.0)))"

definition double :: "pattern \<Rightarrow> failure + pattern" where
  "double p =
     (if steps p \<ge> 64 then Inr p
      else let newSteps = steps p * 2
           in case forEach_tracks (double_track (steps p)) (tracks p) (tracks p, velocities p) of
                Inl e \<Rightarrow> Inl e
              | Inr (ts, vs) \<Rightarrow> Inr (p\<lparr>tracks := ts, velocities := vs, steps := newSteps\<rparr>))"

definition halve_track ::
  "nat \<Rightarrow> nat option list \<Rightarrow> real option list option
   \<Rightarrow> failure + (nat option list \<times> real option list)" where
  "halve_track newSteps track vopt =
     (if newSteps = 0 then Inr (new_Array_fill newSteps 0, new_Array_fill newSteps 1.0)
      else case vopt of
             None \<Rightarrow> Inl TypeError
           | Some vel \<Rightarrow>
               Inr (fold (\<lambda>i (newTrack, newVelocities).
                            (js_put newTrack i (js_get track i),
                             js_put newVelocities i (js_get vel i)))
                      [0..<newSteps] (new_Array_fill newSteps 0, new_Array_fill newSteps 1.0)))"

text \<open>
  \<^verbatim>\<open>halve\<close> divides the step count by 2 as a number. With an odd count above 4 the
  first \<^verbatim>\<open>new Array(newSteps)\<close> raises \<^verbatim>\<open>RangeError\<close>; a pattern without tracks builds no
  array and is left with a step count that is not an integer, which the natural numbers
  of this model do not hold: that outcome is the value \<open>NonIntegerSteps\<close>.
\<close>

definition halve :: "pattern \<Rightarrow> failure + pattern" where
  "halve p =
     (if steps p \<le> 4 then Inr p
      else if odd (steps p)
      then (if tracks p = [] then Inl NonIntegerSteps else Inl RangeError)
      else let newSteps = steps p div 2
           in case forEach_tracks (halve_track newSteps) (tracks p) (tracks p, velocities p) of
                Inl e \<Rightarrow> Inl e
              | Inr (ts, vs) \<Rightarrow> Inr (p\<lparr>tracks := ts, velocities := vs, steps := newSteps\<rparr>))"

subsection \<open>The data invariant\<close>

text \<open>
  Every note of the tracks map has a track of the pattern's step count and a velocity
  array of the same length. \<open>is_Map\<close> says that a list of entries has no key twice, as the
  entries of a \<^verbatim>\<open>Map\<close> do.
\<close>

definition pattern_inv :: "pattern \<Rightarrow> bool" where
  "pattern_inv p =
     list_all (\<lambda>(n, tr). length tr = steps p \<and>
                 (case map_of (velocities p) n of
                    None \<Rightarrow> False
                  | Some ve \<Rightarrow> length ve = steps p))
       (tracks p)"

definition is_Map :: "('k \<times> 'v) list \<Rightarrow> bool" where
  "is_Map m = distinct (map fst m)"

text \<open>The invariant together with the two maps having each key once.\<close>

definition pattern_ok :: "pattern \<Rightarrow> bool" where
  "pattern_ok p = (is_Map (tracks p) \<and> is_Map (velocities p) \<and> pattern_inv p)"

text \<open>
  A record that \<^verbatim>\<open>fromJSON\<close> turns into a pattern with the invariant: every track has
  the record's step count, and when the record has velocities, the velocity array that
  the new map holds for each track's note has that length too.
\<close>

definition json_wellformed :: "pattern_json \<Rightarrow> bool" where
  "json_wellformed data =
     (list_all (\<lambda>(n, tr). length tr = j_steps data) (j_tracks data) \<and>
      (case j_velocities data of
         None \<Rightarrow> True
       | Some vs \<Rightarrow>
           list_all (\<lambda>(n, tr). case map_of (Map_of_entries vs) n of
                                 None \<Rightarrow> False
                               | Some ve \<Rightarrow> length ve = j_steps data)
             (j_tracks data)))"

subsection \<open>The copy loops, one array at a time\<close>

text \<open>
  Each loop of the transformations writes two arrays that do not depend on each other;
  these are the loops on a single array, which the properties below are stated with.
\<close>

definition double_copy :: "nat \<Rightarrow> 'a \<Rightarrow> 'a option list \<Rightarrow> 'a option list" where
  "double_copy n z src =
     fold (\<lambda>i nt. js_put (js_put nt i (js_get src i)) (i + n) (js_get src i))
       [0..<n] (new_Array_fill (n * 2) z)"

definition halve_copy :: "nat \<Rightarrow> 'a \<Rightarrow> 'a option list \<Rightarrow> 'a option list" where
  "halve_copy m z src =
     fold (\<lambda>i nt. js_put nt i (js_get src i)) [0..<m] (new_Array_fill m z)"

definition shift_copy :: "nat \<Rightarrow> int \<Rightarrow> 'a \<Rightarrow> 'a option list \<Rightarrow> 'a option list" where
  "shift_copy n amount z src =
     fold (\<lambda>i nt. js_put_int nt (js_rem (int i + amount + int n) (int n)) (js_get src i))
       [0..<n] (new_Array_fill n z)"

text \<open>
  The pattern of the length-transform scenario: 32 steps, note 36 active on every eighth
  step, all velocities at full scale.
\<close>

definition kick_pattern :: pattern where
  "kick_pattern =
     (new_Pattern 32 ''Untitled'' ''0'')
       \<lparr>tracks := [(36, map (\<lambda>i. Some (if i mod 8 = 0 then 1 else 0)) [0..<32])],
        velocities := [(36, new_Array_fill 32 1.0)]\<rparr>"

section \<open>The sound trigger engine (launchpad35.js, class SampleManager)\<close>

text \<open>
  A loaded sample: the duration of its decoded buffer and its trim region. A playing
  voice is the object \<^verbatim>\<open>soundInfo\<close>; its two audio nodes are represented by what the code
  gives them: \<open>si_gain\<close> is the level the gain node ramps to, \<open>si_offset\<close> and
  \<open>si_duration\<close> are the offset and duration passed to \<^verbatim>\<open>source.start\<close>.
\<close>

record sample =
  buffer_duration :: real
  sample_start :: real
  sample_end :: real

record soundInfo =
  si_startTime :: real
  si_duration :: real
  si_endTime :: real
  si_gain :: real
  si_offset :: real

record sampleManager =
  samples :: "midi_note \<rightharpoonup> sample"
  playing :: "midi_note \<rightharpoonup> soundInfo list"

text \<open>\<^verbatim>\<open>undefined\<close> without a sample, \<^verbatim>\<open>null\<close> when debounced, else the new voice.\<close>

datatype trigger_result = NoSample | Debounced | Started soundInfo

definition recentTriggers :: "real \<Rightarrow> midi_note \<Rightarrow> sampleManager \<Rightarrow> soundInfo list" where
  "recentTriggers now n m =
     (case playing m n of
        None \<Rightarrow> []
      | Some instances \<Rightarrow> filter (\<lambda>info. now - si_startTime info < 0.02) instances)"

text \<open>
  \<^verbatim>\<open>triggerSound(note, velocity, time)\<close> at audio time \<open>now\<close>. The second statement of the
  body assigns 1 to \<^verbatim>\<open>velocity\<close>; the gain is computed from the variable after that.
  \<^verbatim>\<open>sample.start || 0\<close> is the start itself, \<^verbatim>\<open>sample.end || 1\<close> is 1 for an end of 0.
\<close>

definition triggerSound ::
  "midi_note \<Rightarrow> real \<Rightarrow> real \<Rightarrow> real \<Rightarrow> sampleManager \<Rightarrow> trigger_result \<times> sampleManager" where
  "triggerSound n velocity0 time now m =
     (case samples m n of
        None \<Rightarrow> (NoSample, m)
      | Some smp \<Rightarrow>
          (let velocity = (1::real) in
           if recentTriggers now n m \<noteq> [] then (Debounced, m)
           else
             (let velocityGain = min (sqrt velocity) 1.0 * 0.7;
                  startTime = buffer_duration smp * (if sample_start smp = 0 then 0 else sample_start smp);
                  endTime = buffer_duration smp * (if sample_end smp = 0 then 1 else sample_end smp);
                  duration = endTime - startTime;
                  info = \<lparr>si_startTime = time, si_duration = duration,
                          si_endTime = time + duration, si_gain = velocityGain,
                          si_offset = startTime\<rparr>
              in (Started info,
                  m\<lparr>playing := (playing m)
                        (n \<mapsto> (case playing m n of None \<Rightarrow> [] | Some l \<Rightarrow> l) @ [info])\<rparr>))))"

definition setSampleRange :: "midi_note \<Rightarrow> real \<Rightarrow> real \<Rightarrow> sampleManager \<Rightarrow> sampleManager" where
  "setSampleRange n range_start range_end m =
     (case samples m n of
        None \<Rightarrow> m
      | Some smp \<Rightarrow>
          m\<lparr>samples := (samples m)
                (n \<mapsto> smp\<lparr>sample_start := max 0 (min range_start 1),
                           sample_end := max 0 (min range_end 1)\<rparr>)\<rparr>)"

subsection \<open>The beat sequencer's voices (launchpad37.js, scheduleSampleAtTime)\<close>

record sample37 =
  gain37 :: real
  startTime37 :: real
  endTime37 :: real

text \<open>The call \<^verbatim>\<open>source.start(time, offset, duration)\<close> and the value of the gain node.\<close>

record scheduled37 =
  sch_gain :: real
  sch_time :: real
  sch_offset :: real
  sch_duration :: real

definition scheduleSampleAtTime ::
  "(midi_note \<rightharpoonup> sample37) \<Rightarrow> midi_note \<Rightarrow> real \<Rightarrow> real \<Rightarrow> scheduled37 option" where
  "scheduleSampleAtTime smps n velocity time =
     (case smps n of
        None \<Rightarrow> None
      | Some smp \<Rightarrow>
          Some \<lparr>sch_gain = (velocity / 127) * gain37 smp, sch_time = time,
                sch_offset = startTime37 smp,
                sch_duration = endTime37 smp - startTime37 smp\<rparr>)"

section \<open>The step dispatcher (launchpad35.js, class LaunchpadApp)\<close>

text \<open>
  The part of the application that the dispatcher touches: the clock, the sequencing
  switch, the current pattern of the pattern manager (if any) and the sample manager.
  Updates of pads, LEDs and the pattern list are left out.
\<close>

record app =
  app_clock :: clock
  patternEnabled :: bool
  app_pattern :: "pattern option"
  app_samples :: sampleManager

text \<open>An entry of the list \<^verbatim>\<open>scheduledNotes\<close> of the dispatcher: note, velocity, time.\<close>

type_synonym note_trigger = "midi_note \<times> real \<times> jsnum"

text \<open>\<^verbatim>\<open>pattern.velocities?.get(note)?.[step] || 1.0\<close>\<close>

definition stepVelocity :: "pattern \<Rightarrow> midi_note \<Rightarrow> nat \<Rightarrow> real" where
  "stepVelocity p n step =
     (case map_of (velocities p) n of
        None \<Rightarrow> 1.0
      | Some ve \<Rightarrow> (case js_get ve step of
                      None \<Rightarrow> 1.0
                    | Some v \<Rightarrow> if v = 0 then 1.0 else v))"

text \<open>
  The notes gathered for a step: the tracks in map order, without the notes triggered
  by hand in this step, with a truthy cell at the step and a loaded sample.
\<close>

definition scheduledNotes :: "pattern \<Rightarrow> sampleManager \<Rightarrow> nat \<Rightarrow> jsnum \<Rightarrow> note_trigger list" where
  "scheduledNotes p sm step adjustedTime =
     concat (map (\<lambda>(n, track).
                    if n \<in> manuallyTriggeredNotes p then []
                    else (case js_get track step of
                            None \<Rightarrow> []
                          | Some c \<Rightarrow>
                              if c = 0 then []
                              else if samples sm n = None then []
                              else [(n, stepVelocity p n step, adjustedTime)]))
              (tracks p))"

text \<open>
  \<^verbatim>\<open>triggerSound\<close> called with a time computed by the clock. A finite time is the time of
  the sound trigger engine. With a time that is not finite the call returns as usual
  without a sample and when debounced, and otherwise raises \<^verbatim>\<open>TypeError\<close> at
  \<^verbatim>\<open>gain.gain.setValueAtTime(0, time)\<close>.
\<close>

definition triggerSoundAt ::
  "midi_note \<Rightarrow> real \<Rightarrow> jsnum \<Rightarrow> real \<Rightarrow> sampleManager
     \<Rightarrow> failure + trigger_result \<times> sampleManager" where
  "triggerSoundAt n velocity time now m =
     (case time of
        Num t \<Rightarrow> Inr (triggerSound n velocity t now m)
      | _ \<Rightarrow> (if samples m n = None then Inr (NoSample, m)
              else if recentTriggers now n m \<noteq> [] then Inr (Debounced, m)
              else Inl TypeError))"

text \<open>
  The loop \<^verbatim>\<open>scheduledNotes.forEach\<close> of the pattern callback: one call of \<^verbatim>\<open>triggerSound\<close>
  for each entry, in order, at the entry's time plus the compensation offset 0.
\<close>

fun triggerAll :: "note_trigger list \<Rightarrow> real \<Rightarrow> sampleManager \<Rightarrow> failure + sampleManager" where
  "triggerAll [] now m = Inr m"
| "triggerAll ((n, v, t) # rest) now m =
     (let compensationOffset = Num 0
      in case triggerSoundAt n v (js_add t compensationOffset) now m of
           Inl e \<Rightarrow> Inl e
         | Inr (r, m1) \<Rightarrow> triggerAll rest now m1)"

text \<open>
  The pattern callback registered in \<^verbatim>\<open>setupClock\<close>, called with a step event at audio
  time \<open>now\<close>. It returns the application and the list \<^verbatim>\<open>scheduledNotes\<close> it gathered.
\<close>

definition patternCallback ::
  "nat \<Rightarrow> jsnum \<Rightarrow> real \<Rightarrow> app \<Rightarrow> failure + app \<times> note_trigger list" where
  "patternCallback step time now a =
     (if \<not> patternEnabled a then Inr (a, [])
      else case app_pattern a of
             None \<Rightarrow> Inr (a, [])
           | Some p \<Rightarrow>
               (let p1 = clearTriggeredNotesIfNeeded step p;
                    lookAheadCompensation = fl 0.005;
                    adjustedTime = js_add time lookAheadCompensation;
                    batch = scheduledNotes p1 (app_samples a) step adjustedTime
                in case triggerAll batch now (app_samples a) of
                     Inl e \<Rightarrow> Inl e
                   | Inr sm \<Rightarrow> Inr (a\<lparr>app_pattern := Some p1, app_samples := sm\<rparr>, batch)))"

text \<open>
  The step events of a scheduling pass reach the callback one after the other; an
  exception raised by a callback ends the pass.
\<close>

fun dispatch :: "step_event list \<Rightarrow> real \<Rightarrow> app \<Rightarrow> failure + app" where
  "dispatch [] now a = Inr a"
| "dispatch ((step, time) # evs) now a =
     (case patternCallback step time now a of
        Inl e \<Rightarrow> Inl e
      | Inr (a1, batch) \<Rightarrow> dispatch evs now a1)"

text \<open>
  A pad struck in beat mode at audio time \<open>now\<close>. The result is \<open>None\<close> when starting the
  clock does not return, \<open>Some (Inl e)\<close> when a callback of the first pass or \<^verbatim>\<open>recordNote\<close>
  raises.
\<close>

definition handleBeatModePadPress ::
  "midi_note \<Rightarrow> real \<Rightarrow> real \<Rightarrow> app \<Rightarrow> (failure + app) option" where
  "handleBeatModePadPress n velocity now a =
     (case app_pattern a of
        None \<Rightarrow> Some (Inr a)
      | Some p0 \<Rightarrow>
          (case (if \<not> isPlaying (app_clock a)
                 then (case start now (app_clock a) of
                         None \<Rightarrow> None
                       | Some (c, evs) \<Rightarrow> Some (dispatch evs now (a\<lparr>app_clock := c\<rparr>)))
                 else Some (Inr a)) of
             None \<Rightarrow> None
           | Some (Inl e) \<Rightarrow> Some (Inl e)
           | Some (Inr a1) \<Rightarrow>
               (let a2 = (if samples (app_samples a1) n \<noteq> None
                          then a1\<lparr>app_samples := snd (triggerSound n velocity now now (app_samples a1))\<rparr>
                          else a1)
                in case app_pattern a2 of
                     None \<Rightarrow> Some (Inr a2)
                   | Some p \<Rightarrow>
                       (let p1 = clearTriggeredNotesIfNeeded (currentStep (app_clock a2)) p;
                            p2 = p1\<lparr>manuallyTriggeredNotes := insert n (manuallyTriggeredNotes p1)\<rparr>
                        in case recordNote n (currentStep (app_clock a2)) velocity p2 of
                             Inl e \<Rightarrow> Some (Inl e)
                           | Inr p3 \<Rightarrow> Some (Inr (a2\<lparr>app_pattern := Some (p3\<lparr>isNew := False\<rparr>)\<rparr>))))))"

section \<open>Test data\<close>

text \<open>The default clock after \<^verbatim>\<open>start()\<close> at time 0: four steps emitted, next step 4 at 1/4 s.\<close>

definition started_clock :: clock where
  "started_clock =
     \<lparr>bpm = Num 120, isPlaying = True, currentStep = 4, nextStepTime = Num (1/4),
      stepDuration = Num (1/16), pending = 1, ticks = [0, 1, 2, 3],
      recalibrationInterval = False\<rparr>"

text \<open>A sample manager with one sample of \<open>d\<close> seconds on note 36, untrimmed, nothing playing.\<close>

definition loaded :: "real \<Rightarrow> sampleManager" where
  "loaded d = \<lparr>samples = [36 \<mapsto> \<lparr>buffer_duration = d, sample_start = 0, sample_end = 1\<rparr>],
               playing = Map.empty\<rparr>"

text \<open>
  A running application: the default clock after \<^verbatim>\<open>start()\<close> at time 0 (next step 4), and a
  32-step pattern with the notes 36 and 38 active at step 4 and an empty track for note 40;
  samples are loaded for 36 and 38.
\<close>

definition demo_pattern :: pattern where
  "demo_pattern =
     (new_Pattern 32 ''Untitled'' ''0'')
       \<lparr>tracks := [(36, (new_Array_fill 32 0)[4 := Some 1]),
                   (38, (new_Array_fill 32 0)[4 := Some 1]),
                   (40, new_Array_fill 32 0)],
        velocities := [(36, new_Array_fill 32 1.0),
                       (38, (new_Array_fill 32 1.0)[4 := Some 0.5]),
                       (40, new_Array_fill 32 1.0)]\<rparr>"

definition demo_app :: app where
  "demo_app =
     \<lparr>app_clock = \<lparr>bpm = Num 120, isPlaying = True, currentStep = 4, nextStepTime = Num (1/4),
                   stepDuration = Num (1/16), pending = 1, ticks = [0, 1, 2, 3],
                   recalibrationInterval = False\<rparr>,
      patternEnabled = True,
      app_pattern = Some demo_pattern,
      app_samples = \<lparr>samples = [36 \<mapsto> \<lparr>buffer_duration = 2, sample_start = 0, sample_end = 1\<rparr>,
                                 38 \<mapsto> \<lparr>buffer_duration = 1, sample_start = 0, sample_end = 1\<rparr>],
                     playing = Map.empty\<rparr>\<rparr>"

text \<open>
  A stopped application with the default clock and a 32-step pattern that has note 38
  active on the steps 3 and 4; samples are loaded for 36 and 38.
\<close>

definition dense_app :: app where
  "dense_app =
     \<lparr>app_clock = new_Clock (Num 120),
      patternEnabled = True,
      app_pattern = Some ((new_Pattern 32 ''Untitled'' ''0'')
         \<lparr>tracks := [(38, (new_Array_fill 32 0)[3 := Some 1, 4 := Some 1])],
          velocities := [(38, new_Array_fill 32 1.0)]\<rparr>),
      app_samples = \<lparr>samples = [36 \<mapsto> \<lparr>buffer_duration = 2, sample_start = 0, sample_end = 1\<rparr>,
                                 38 \<mapsto> \<lparr>buffer_duration = 1, sample_start = 0, sample_end = 1\<rparr>],
                     playing = Map.empty\<rparr>\<rparr>"

section \<open>Properties of the number model\<close>

lemmas num_eval = fl_def round53_def ulp_def scale_up.simps scale_down.simps
  round_half_even_def MAX_VALUE_def js_sub_def js_gt_def js_max_def js_min_def js_inf_def

lemma round_half_even_error: "\<bar>of_int (round_half_even y) - y\<bar> \<le> 1/2"
proof -
  have "of_int \<lfloor>y\<rfloor> \<le> y" "y < of_int \<lfloor>y\<rfloor> + 1"
    by linarith+
  then show ?thesis
    by (auto simp: round_half_even_def Let_def)
qed

lemma scale_up_lower: "scale_up k x < 1022 \<Longrightarrow> 2 ^ k \<le> x * 2 ^ scale_up k x"
proof (induction k x rule: scale_up.induct)
  case (1 k x)
  show ?case
  proof (cases "1 \<le> x \<or> 1022 \<le> k")
    case True
    then have "scale_up k x = k"
      by (subst scale_up.simps) simp
    with True "1.prems" show ?thesis
      by simp
  next
    case False
    then have eq: "scale_up k x = scale_up (k + 1) (2 * x)"
      by (subst scale_up.simps) simp
    with "1.IH"[OF False] "1.prems" have "2 ^ (k + 1) \<le> 2 * x * 2 ^ scale_up k x"
      by simp
    then show ?thesis
      by simp
  qed
qed

lemma scale_down_lower: "1 \<le> x \<Longrightarrow> 2 ^ scale_down k x \<le> x * 2 ^ k"
proof (induction k x rule: scale_down.induct)
  case (1 k x)
  show ?case
  proof (cases "x < 2 \<or> 1024 \<le> k")
    case True
    then have "scale_down k x = k"
      by (subst scale_down.simps) simp
    with "1.prems" show ?thesis
      by simp
  next
    case False
    then have eq: "scale_down k x = scale_down (k + 1) (x / 2)"
      by (subst scale_down.simps) simp
    from False have "1 \<le> x / 2"
      by simp
    from "1.IH"[OF False this] eq show ?thesis
      by simp
  qed
qed

lemma ulp_pos: "0 < ulp x"
  by (simp add: ulp_def)

text \<open>The spacing is at most \<open>2 ^ - 52\<close> times the number, from the normal numbers on.\<close>

lemma ulp_le:
  assumes "1 / 2 ^ 1022 \<le> \<bar>x\<bar>"
  shows "ulp x \<le> \<bar>x\<bar> / 2 ^ 52"
proof (cases "1 \<le> \<bar>x\<bar>")
  case True
  with scale_down_lower[OF True, of 0] show ?thesis
    by (simp add: ulp_def divide_right_mono)
next
  case False
  let ?r = "scale_up 0 \<bar>x\<bar>"
  have "1 \<le> \<bar>x\<bar> * 2 ^ ?r"
  proof (cases "?r < 1022")
    case True
    from scale_up_lower[OF True] show ?thesis
      by simp
  next
    case False
    then have "(2::real) ^ 1022 \<le> 2 ^ ?r"
      by (intro power_increasing) simp_all
    moreover have "1 \<le> \<bar>x\<bar> * 2 ^ 1022"
      using assms by (simp add: field_simps)
    ultimately show ?thesis
      by (smt (verit) mult_left_mono abs_ge_zero)
  qed
  then have "1 / 2 ^ ?r \<le> \<bar>x\<bar>"
    by (simp add: field_simps)
  then have "1 / 2 ^ ?r / 2 ^ 52 \<le> \<bar>x\<bar> / 2 ^ 52"
    by (rule divide_right_mono) simp
  with False show ?thesis
    by (simp add: ulp_def power_add)
qed

lemma round53_ulp: "\<bar>round53 x - x\<bar> \<le> ulp x / 2"
proof -
  have "round53 x - x = ulp x * (of_int (round_half_even (x / ulp x)) - x / ulp x)"
    using ulp_pos[of x] by (simp add: round53_def algebra_simps)
  then have "\<bar>round53 x - x\<bar> = ulp x * \<bar>of_int (round_half_even (x / ulp x)) - x / ulp x\<bar>"
    using ulp_pos[of x] by (simp add: abs_mult)
  also have "\<dots> \<le> ulp x * (1/2)"
    using round_half_even_error[of "x / ulp x"] ulp_pos[of x]
    by (intro mult_left_mono) simp_all
  finally show ?thesis
    by simp
qed

text \<open>Rounding changes a normal number by at most the fraction \<open>2 ^ - 53\<close> of it.\<close>

lemma round53_error:
  assumes "1 / 2 ^ 1022 \<le> \<bar>x\<bar>"
  shows "\<bar>round53 x - x\<bar> \<le> \<bar>x\<bar> / 2 ^ 53"
  using round53_ulp[of x] ulp_le[OF assms] by simp

text \<open>For every number, the change is at most that fraction plus half the subnormal spacing.\<close>

lemma ulp_le_gen: "ulp x \<le> \<bar>x\<bar> / 2 ^ 52 + 1 / 2 ^ 1074"
proof (cases "1 / 2 ^ 1022 \<le> \<bar>x\<bar>")
  case True
  from ulp_le[OF this] show ?thesis
    by simp
next
  case False
  then have small: "\<bar>x\<bar> * 2 ^ 1022 < 1" "\<not> 1 \<le> \<bar>x\<bar>"
    by (simp_all add: field_simps)
  let ?r = "scale_up 0 \<bar>x\<bar>"
  have "\<not> ?r < 1022"
  proof
    assume r: "?r < 1022"
    then have "(2::real) ^ ?r \<le> 2 ^ 1022"
      by (intro power_increasing) simp_all
    then have "\<bar>x\<bar> * 2 ^ ?r \<le> \<bar>x\<bar> * 2 ^ 1022"
      by (intro mult_left_mono) simp_all
    with scale_up_lower[OF r] small(1) show False
      by simp
  qed
  then have "(2::real) ^ 1074 \<le> 2 ^ (?r + 52)"
    by (intro power_increasing) simp_all
  then have "1 / 2 ^ (?r + 52) \<le> 1 / (2::real) ^ 1074"
    by (intro divide_left_mono) simp_all
  moreover have "ulp x = 1 / 2 ^ (?r + 52)"
    using small(2) by (simp add: ulp_def)
  ultimately show ?thesis
    by (smt (verit) abs_ge_zero divide_nonneg_pos zero_less_power)
qed

lemma round53_error_gen: "\<bar>round53 x - x\<bar> \<le> \<bar>x\<bar> / 2 ^ 53 + 1 / 2 ^ 1075"
  using round53_ulp[of x] ulp_le_gen[of x] by simp

lemma round53_0: "round53 0 = 0"
  by (simp add: round53_def round_half_even_def)

lemma fl_Num:
  assumes "\<bar>x\<bar> \<le> 2 ^ 64"
  shows "fl x = Num (round53 x)"
proof -
  have "\<bar>round53 x\<bar> \<le> \<bar>x\<bar> + (\<bar>x\<bar> / 2 ^ 53 + 1 / 2 ^ 1075)"
    using round53_error_gen[of x] by linarith
  also have "\<dots> \<le> 2 ^ 65"
    using assms by simp
  also have "\<dots> \<le> MAX_VALUE"
    by (simp add: MAX_VALUE_def)
  finally show ?thesis
    by (auto simp: fl_def Let_def)
qed

lemma fl_0: "fl 0 = Num 0"
  by (simp add: fl_def round53_0 MAX_VALUE_def)

text \<open>
  Adding a step duration of at least 1/1024 s to a time of at most \<open>2 ^ 31\<close> s moves the
  time forward, by at least half of it and at most twice it.
\<close>

lemma round53_progress:
  assumes "0 \<le> t" and "t \<le> 2 ^ 31" and "1 / 1024 \<le> d"
  shows "t + d / 2 \<le> round53 (t + d)" and "round53 (t + d) \<le> t + 2 * d"
    and "\<bar>round53 (t + d) - t - d\<bar> \<le> (t + d) / 2 ^ 53"
proof -
  have "1 / 2 ^ 1022 \<le> \<bar>t + d\<bar>"
    using assms by simp
  from round53_error[OF this] have e: "\<bar>round53 (t + d) - (t + d)\<bar> \<le> (t + d) / 2 ^ 53"
    using assms by simp
  have "(t + d) / 2 ^ 53 \<le> d / 2"
    using assms by simp
  with e show "t + d / 2 \<le> round53 (t + d)" and "round53 (t + d) \<le> t + 2 * d"
    by linarith+
  from e show "\<bar>round53 (t + d) - t - d\<bar> \<le> (t + d) / 2 ^ 53"
    by (simp add: algebra_simps)
qed

lemma js_add_Num:
  assumes "0 \<le> t" and "t \<le> 2 ^ 31" and "1 / 1024 \<le> d" and "d \<le> 1024"
  shows "js_add (Num t) (Num d) = Num (round53 (t + d))"
  using assms by (simp add: fl_Num)

text \<open>The literals of the scheduling code.\<close>

lemma literal_0_2: "fl 0.2 = Num (3602879701896397 / 2 ^ 54)"
  by (simp add: num_eval)

lemma literal_0_05: "fl 0.05 = Num (3602879701896397 / 2 ^ 56)"
  by (simp add: num_eval)

lemma literal_0_005: "fl 0.005 = Num (5764607523034235 / 2 ^ 60)"
  by (simp add: num_eval)

text \<open>The end of the look-ahead window of a pass at time \<open>now\<close>.\<close>

lemma endTime_Num:
  assumes "0 \<le> now" and "now \<le> 2 ^ 30"
  shows "\<exists>E. js_add (Num now) (fl 0.2) = Num E \<and> now + 199/1000 \<le> E \<and> E \<le> now + 201/1000"
proof -
  let ?c = "3602879701896397 / 2 ^ 54 :: real"
  let ?x = "now + ?c"
  have r: "1 / 2 ^ 1022 \<le> \<bar>?x\<bar>" "\<bar>?x\<bar> \<le> 2 ^ 64"
    using assms by simp_all
  have "js_add (Num now) (fl 0.2) = Num (round53 ?x)"
    unfolding literal_0_2 using fl_Num[OF r(2)] by simp
  moreover have "\<bar>round53 ?x - ?x\<bar> \<le> \<bar>?x\<bar> / 2 ^ 53"
    by (rule round53_error[OF r(1)])
  moreover have "\<bar>?x\<bar> / 2 ^ 53 \<le> 1 / 10000"
    using assms by simp
  ultimately have "js_add (Num now) (fl 0.2) = Num (round53 ?x)"
    and "\<bar>round53 ?x - ?x\<bar> \<le> 1 / 10000"
    by linarith+
  moreover have "199/1000 + 1/10000 \<le> ?c" "?c \<le> 201/1000 - 1/10000"
    by simp_all
  ultimately have "js_add (Num now) (fl 0.2) = Num (round53 ?x)
      \<and> now + 199/1000 \<le> round53 ?x \<and> round53 ?x \<le> now + 201/1000"
    by linarith
  then show ?thesis
    by blast
qed

section \<open>Properties of the clock\<close>

lemma grid_time_front: "grid_time d t (Suc k) = grid_time d (round53 (t + d)) k"
  by (induction k) simp_all

lemma steps_from_0: "steps_from s t d 0 = []"
  by (simp add: steps_from_def)

lemma steps_from_Suc_front:
  "steps_from s t d (Suc n) = (s mod BEAT_STEPS, Num t) # steps_from (Suc s) (round53 (t + d)) d n"
proof -
  have "[0..<Suc n] = 0 # map Suc [0..<n]"
    by (simp add: upt_conv_Cons map_Suc_upt del: upt_Suc)
  then show ?thesis
    by (simp add: steps_from_def comp_def grid_time_front del: upt_Suc grid_time.simps(2))
qed

lemma steps_from_mod: "steps_from (s mod BEAT_STEPS) t d n = steps_from s t d n"
  by (simp add: steps_from_def mod_add_left_eq)





text \<open>
  The loop of a pass from a next step time \<open>t\<close> between 0 and \<open>2 ^ 31\<close> s, with a step
  duration between 1/1024 s and 1024 s, returns after some number \<open>n\<close> of steps.
\<close>

lemma scheduleLoop_result:
  assumes "stepDuration c = Num d" and "1 / 1024 \<le> d" and "d \<le> 1024"
    and "nextStepTime c = Num t" and "0 \<le> t" and "t \<le> 2 ^ 31"
    and "E \<le> 2 ^ 30 + 1" and "currentStep c < BEAT_STEPS"
  shows "\<exists>n c'. scheduleLoop (Num E) c evs =
            Some (c', evs @ (if isPlaying c then steps_from (currentStep c) t d n else []))
          \<and> nextStepTime c' = Num (grid_time d t n)
          \<and> currentStep c' = (currentStep c + n) mod BEAT_STEPS
          \<and> stepDuration c' = Num d \<and> isPlaying c' = isPlaying c
          \<and> bpm c' = bpm c \<and> pending c' = pending c
          \<and> recalibrationInterval c' = recalibrationInterval c
          \<and> (\<forall>k<n. grid_time d t k < E)
          \<and> E \<le> grid_time d t n
          \<and> t \<le> grid_time d t n \<and> grid_time d t n \<le> 2 ^ 31"
  using assms(1,4,5,6,8)
proof (induction "nat \<lceil>2 * (E - t) / d\<rceil>" arbitrary: c evs t rule: less_induct)
  case less
  let ?s = "currentStep c"
  have dpos: "0 < d"
    using assms(2) by simp
  show ?case
  proof (cases "t < E")
    case False
    then have "scheduleLoop (Num E) c evs = Some (c, evs)"
      using less.prems by (subst scheduleLoop.simps) simp
    with False less.prems show ?thesis
      by (intro exI[of _ 0] exI[of _ c]) (simp add: steps_from_0)
  next
    case True
    obtain c1 new where c1: "scheduleStep ?s (Num t) c = (c1, new)"
      by (cases "scheduleStep ?s (Num t) c")
    let ?c2 = "advanceStep c1"
    let ?t2 = "round53 (t + d)"
    have f1: "stepDuration c1 = Num d" "nextStepTime c1 = Num t" "currentStep c1 = ?s"
      "isPlaying c1 = isPlaying c" "bpm c1 = bpm c" "pending c1 = pending c"
      "recalibrationInterval c1 = recalibrationInterval c"
      and new: "new = (if isPlaying c then [(?s, Num t)] else [])"
      using c1 less.prems by (auto simp: scheduleStep_def split: if_splits)
    have add: "js_add (Num t) (Num d) = Num ?t2"
      using less.prems assms(2,3) by (intro js_add_Num)
    have f2: "stepDuration ?c2 = Num d" "nextStepTime ?c2 = Num ?t2"
      "currentStep ?c2 = (?s + 1) mod BEAT_STEPS"
      "isPlaying ?c2 = isPlaying c" "bpm ?c2 = bpm c" "pending ?c2 = pending c"
      "recalibrationInterval ?c2 = recalibrationInterval c"
      using f1 add by (simp_all add: advanceStep_def)
    have unfold: "scheduleLoop (Num E) c evs = scheduleLoop (Num E) ?c2 (evs @ new)"
      using True c1 less.prems by (subst scheduleLoop.simps) simp
    have prog: "t + d / 2 \<le> ?t2" "?t2 \<le> t + 2 * d"
      using round53_progress[of t d] less.prems assms(2) by simp_all
    have "1 \<le> 2 * (?t2 - t) / d"
      using prog(1) dpos by simp
    moreover have "2 * (E - t) / d - 2 * (?t2 - t) / d = 2 * (E - ?t2) / d"
      by (simp add: diff_divide_distrib[symmetric])
    ultimately have "2 * (E - ?t2) / d \<le> 2 * (E - t) / d - 1"
      by linarith
    then have "\<lceil>2 * (E - ?t2) / d\<rceil> \<le> \<lceil>2 * (E - t) / d\<rceil> - 1"
      by (smt (verit) ceiling_mono ceiling_diff_one)
    moreover have "0 < \<lceil>2 * (E - t) / d\<rceil>"
      using True dpos by simp
    ultimately have dec: "nat \<lceil>2 * (E - ?t2) / d\<rceil> < nat \<lceil>2 * (E - t) / d\<rceil>"
      by linarith
    have pre: "0 \<le> ?t2" "?t2 \<le> 2 ^ 31" "currentStep ?c2 < BEAT_STEPS"
      using prog less.prems True assms(2,3,7) f2 by (simp_all add: BEAT_STEPS_def)
    from less.hyps[OF dec f2(1,2) pre, of "evs @ new"]
    obtain n c' where ih: "scheduleLoop (Num E) ?c2 (evs @ new) =
            Some (c', (evs @ new) @ (if isPlaying ?c2
                             then steps_from (currentStep ?c2) ?t2 d n else []))"
      "nextStepTime c' = Num (grid_time d ?t2 n)"
      "currentStep c' = (currentStep ?c2 + n) mod BEAT_STEPS"
      "stepDuration c' = Num d" "isPlaying c' = isPlaying ?c2"
      "bpm c' = bpm ?c2" "pending c' = pending ?c2"
      "recalibrationInterval c' = recalibrationInterval ?c2"
      "\<forall>k<n. grid_time d ?t2 k < E"
      "E \<le> grid_time d ?t2 n"
      "?t2 \<le> grid_time d ?t2 n" "grid_time d ?t2 n \<le> 2 ^ 31"
      by blast
    have smod: "?s mod BEAT_STEPS = ?s"
      using less.prems by simp
    have evs_eq: "(evs @ new) @ (if isPlaying ?c2
                             then steps_from (currentStep ?c2) ?t2 d n else [])
        = evs @ (if isPlaying c then steps_from ?s t d (Suc n) else [])"
      using f2 new smod steps_from_mod[of "Suc ?s" ?t2 d n]
      by (simp add: steps_from_Suc_front)
    have bound: "\<forall>k<Suc n. grid_time d t k < E"
    proof (intro allI impI)
      fix k assume "k < Suc n"
      show "grid_time d t k < E"
      proof (cases k)
        case 0 with True show ?thesis by simp
      next
        case (Suc j)
        with \<open>k < Suc n\<close> ih(9) show ?thesis
          by (simp add: grid_time_front del: grid_time.simps(2))
      qed
    qed
    have cs: "currentStep c' = (?s + Suc n) mod BEAT_STEPS"
      using ih(3) f2(3) by (simp add: mod_add_left_eq)
    have nt: "nextStepTime c' = Num (grid_time d t (Suc n))"
      using ih(2) by (simp add: grid_time_front del: grid_time.simps(2))
    have fin: "E \<le> grid_time d t (Suc n)" "t \<le> grid_time d t (Suc n)"
      "grid_time d t (Suc n) \<le> 2 ^ 31"
      using ih(10-12) prog(1) dpos by (simp_all add: grid_time_front del: grid_time.simps(2))
    have res: "scheduleLoop (Num E) c evs =
        Some (c', evs @ (if isPlaying c then steps_from ?s t d (Suc n) else []))"
      using unfold ih(1) evs_eq by simp
    have keep: "stepDuration c' = Num d" "isPlaying c' = isPlaying c" "bpm c' = bpm c"
      "pending c' = pending c" "recalibrationInterval c' = recalibrationInterval c"
      using ih(4-8) f2 by simp_all
    from res nt cs keep bound fin show ?thesis
      by blast
  qed
qed

lemma scheduleAhead_result:
  assumes "stepDuration c = Num d" and "1 / 1024 \<le> d" and "d \<le> 1024"
    and "nextStepTime c = Num t" and "0 \<le> t" and "t \<le> 2 ^ 31"
    and "0 \<le> now" and "now \<le> 2 ^ 30" and "currentStep c < BEAT_STEPS"
  shows "\<exists>n c' E. js_add (Num now) (fl 0.2) = Num E
          \<and> now + 199/1000 \<le> E \<and> E \<le> now + 201/1000
          \<and> scheduleAhead now c =
               Some (c', if isPlaying c then steps_from (currentStep c) t d n else [])
          \<and> nextStepTime c' = Num (grid_time d t n)
          \<and> currentStep c' = (currentStep c + n) mod BEAT_STEPS
          \<and> stepDuration c' = Num d \<and> isPlaying c' = isPlaying c
          \<and> bpm c' = bpm c
          \<and> pending c' = (if isPlaying c then pending c + 1 else pending c)
          \<and> recalibrationInterval c' = recalibrationInterval c
          \<and> (\<forall>k<n. grid_time d t k < E)
          \<and> E \<le> grid_time d t n
          \<and> t \<le> grid_time d t n \<and> grid_time d t n \<le> 2 ^ 31"
proof -
  from endTime_Num[OF assms(7,8)] obtain E where
    E: "js_add (Num now) (fl 0.2) = Num E" "now + 199/1000 \<le> E" "E \<le> now + 201/1000"
    by blast
  have "E \<le> 2 ^ 30 + 1"
    using E(3) assms(8) by simp
  from scheduleLoop_result[OF assms(1-6) this assms(9), of "[]"]
  obtain n c1 where r: "scheduleLoop (Num E) c [] =
        Some (c1, if isPlaying c then steps_from (currentStep c) t d n else [])"
    "nextStepTime c1 = Num (grid_time d t n)"
    "currentStep c1 = (currentStep c + n) mod BEAT_STEPS"
    "stepDuration c1 = Num d" "isPlaying c1 = isPlaying c"
    "bpm c1 = bpm c" "pending c1 = pending c"
    "recalibrationInterval c1 = recalibrationInterval c"
    "\<forall>k<n. grid_time d t k < E"
    "E \<le> grid_time d t n" "t \<le> grid_time d t n" "grid_time d t n \<le> 2 ^ 31"
    by auto
  let ?c' = "if isPlaying c1 then c1\<lparr>pending := pending c1 + 1\<rparr> else c1"
  have "scheduleAhead now c =
      Some (?c', if isPlaying c then steps_from (currentStep c) t d n else [])"
    using r(1) E(1) by (simp add: scheduleAhead_def)
  moreover have "nextStepTime ?c' = Num (grid_time d t n)"
    "currentStep ?c' = (currentStep c + n) mod BEAT_STEPS"
    "stepDuration ?c' = Num d" "isPlaying ?c' = isPlaying c" "bpm ?c' = bpm c"
    "pending ?c' = (if isPlaying c then pending c + 1 else pending c)"
    "recalibrationInterval ?c' = recalibrationInterval c"
    using r by simp_all
  ultimately show ?thesis
    using E r(9-12) by blast
qed





lemmas clock_eval = start_def stop_def fireTimeout_def scheduleAhead_def scheduleLoop.simps
  scheduleStep_def advanceStep_def new_Clock_def calculateStepDuration_def
  STEPS_PER_QUARTER_def BEAT_STEPS_def clearScheduledEvents_def

lemma default_stepDuration: "calculateStepDuration (Num 120) = Num (1/16)"
  by (simp add: calculateStepDuration_def STEPS_PER_QUARTER_def num_eval)


text \<open>The same run, evaluated: six events, one sixteenth of a second apart.\<close>

lemma run_example:
  "clock_run [Start 0, Fire (5/32)] (new_Clock (Num 120)) =
     Some (\<lparr>bpm = Num 120, isPlaying = True, currentStep = 6, nextStepTime = Num (3/8),
            stepDuration = Num (1/16), pending = 1, ticks = [0,1,2,3,4,5],
            recalibrationInterval = False\<rparr>,
           [(0, Num 0), (1, Num (1/16)), (2, Num (1/8)), (3, Num (3/16)), (4, Num (1/4)),
            (5, Num (5/16))])"
  by (simp add: clock_eval num_eval)


subsection \<open>Stopping\<close>

lemma stop_idempotent: "stop (stop c) = stop c"
  by (simp add: stop_def clearScheduledEvents_def)

lemma stop_keeps_callbacks: "pending (stop c) = pending c \<and> ticks (stop c) = ticks c"
  by (simp add: stop_def clearScheduledEvents_def)

text \<open>
  Claim C2 (stop cancels every outstanding callback; the step index stays 0 until the next
  start). Evaluated on the default clock: after \<^verbatim>\<open>start()\<close> at time 0 and \<^verbatim>\<open>stop()\<close>, the
  reschedule callback armed by the first pass is still armed (\<open>pending = 1\<close>), and when it
  fires at 5/32 s the pass advances the step index of the stopped clock from 0 to 2.
\<close>

theorem stop_then_timeout_advances_step:
  "clock_run [Start 0, Stop] (new_Clock (Num 120)) =
     Some (\<lparr>bpm = Num 120, isPlaying = False, currentStep = 0, nextStepTime = Num (1/4),
            stepDuration = Num (1/16), pending = 1, ticks = [0,1,2,3],
            recalibrationInterval = False\<rparr>,
           [(0, Num 0), (1, Num (1/16)), (2, Num (1/8)), (3, Num (3/16))])
   \<and> clock_run [Start 0, Stop, Fire (5/32)] (new_Clock (Num 120)) =
     Some (\<lparr>bpm = Num 120, isPlaying = False, currentStep = 2, nextStepTime = Num (3/8),
            stepDuration = Num (1/16), pending = 0, ticks = [0,1,2,3],
            recalibrationInterval = False\<rparr>,
           [(0, Num 0), (1, Num (1/16)), (2, Num (1/8)), (3, Num (3/16))])"
  by (simp add: clock_eval num_eval)

subsection \<open>Tempo\<close>

lemma round53_near:
  assumes "\<bar>x\<bar> \<le> 2 ^ 32"
  shows "\<bar>round53 x - x\<bar> \<le> 1 / 2 ^ 20"
proof -
  have "\<bar>x\<bar> / 2 ^ 53 + 1 / 2 ^ 1075 \<le> 1 / 2 ^ (20::nat)"
    using assms by simp
  with round53_error_gen[of x] show ?thesis
    by linarith
qed

lemma round53_close:
  assumes "\<bar>x\<bar> \<le> 2 ^ 32"
  shows "x - 1 / 1000000 \<le> round53 x \<and> round53 x \<le> x + 1 / 1000000"
proof -
  have "(1::real) / 2 ^ 20 \<le> 1 / 1000000"
    by simp
  with round53_near[OF assms] show ?thesis
    by linarith
qed

text \<open>The step duration of a tempo between 40 and 240 bpm is between 30 ms and 190 ms.\<close>

lemma calculateStepDuration_bounds:
  assumes "40 \<le> b" and "b \<le> 240"
  shows "\<exists>d. calculateStepDuration (Num b) = Num d \<and> 3/100 \<le> d \<and> d \<le> 19/100"
proof -
  let ?q1 = "round53 (b / 60)"
  let ?q2 = "round53 (?q1 * 8)"
  let ?d = "round53 (1 / ?q2)"
  have x1: "2/3 \<le> b / 60" "b / 60 \<le> 4"
    using assms by simp_all
  have small: "(1::real) / 2 ^ 20 \<le> 1 / 1000"
    by simp
  have "\<bar>b / 60\<bar> \<le> 2 ^ 32"
    using x1 by simp
  from round53_near[OF this] have n1: "\<bar>?q1 - b / 60\<bar> \<le> 1 / 2 ^ 20" .
  have q1: "6/10 \<le> ?q1" "?q1 \<le> 41/10"
    using n1 x1 small by linarith+
  have "\<bar>?q1 * 8\<bar> \<le> 2 ^ 32"
    using q1 by simp
  from round53_near[OF this] have n2: "\<bar>?q2 - ?q1 * 8\<bar> \<le> 1 / 2 ^ 20" .
  have q2: "53/10 \<le> ?q2" "?q2 \<le> 321/10"
    using n1 n2 x1 small by linarith+
  have x3: "10/321 \<le> 1 / ?q2" "1 / ?q2 \<le> 10/53"
    using q2 by (simp_all add: field_simps)
  have "\<bar>1 / ?q2\<bar> \<le> 2 ^ 32"
    using x3 by simp
  from round53_near[OF this] have n3: "\<bar>?d - 1 / ?q2\<bar> \<le> 1 / 2 ^ 20" .
  have d: "3/100 \<le> ?d" "?d \<le> 19/100"
    using n3 x3 small by linarith+
  have "js_div (Num b) (Num 60) = Num ?q1"
    using x1 by (simp add: fl_Num)
  moreover have "js_mul (Num ?q1) (Num 8) = Num ?q2"
    using q1 by (simp add: fl_Num)
  moreover have "js_div (Num 1) (Num ?q2) = Num ?d"
    using q2 x3 by (simp add: fl_Num)
  ultimately have "calculateStepDuration (Num b) = Num ?d"
    by (simp add: calculateStepDuration_def STEPS_PER_QUARTER_def)
  with d show ?thesis
    by blast
qed

text \<open>\<^verbatim>\<open>Math.max(lo, Math.min(hi, x))\<close> for a number \<open>x\<close> other than NaN.\<close>

lemma js_clamp:
  assumes "x \<noteq> NaN" and "lo \<le> hi"
  shows "js_max (Num lo) (js_min (Num hi) x) =
           (case x of Num r \<Rightarrow> Num (max lo (min hi r)) | PosInf \<Rightarrow> Num hi
            | NegInf \<Rightarrow> Num lo | NaN \<Rightarrow> NaN)"
  using assms by (cases x) (auto simp: js_max_def js_min_def)

lemma js_clamp_range:
  assumes "x \<noteq> NaN" and "lo \<le> hi"
  shows "\<exists>b. js_max (Num lo) (js_min (Num hi) x) = Num b \<and> lo \<le> b \<and> b \<le> hi"
  using assms by (cases x) (auto simp: js_max_def js_min_def)

text \<open>
  With NaN, which \<^verbatim>\<open>parseInt\<close> returns for an empty tempo field, \<^verbatim>\<open>setBPM\<close> stores NaN as the
  tempo and as the step duration, and \<^verbatim>\<open>setTempo\<close> stores it as the tempo.
\<close>

lemma setBPM_NaN:
  "setBPM NaN now c = Some (c\<lparr>bpm := NaN, stepDuration := NaN\<rparr>, [])
   \<and> seq_bpm (setTempo NaN s) = NaN"
  by (cases "bpm c")
     (simp_all add: setBPM_def setTempo_def calculateStepDuration_def js_max_def js_min_def
       js_gt_def js_sub_def Let_def)

text \<open>
  Claim C4, amended: for every number \<open>x\<close> other than NaN, the infinities included,
  \<^verbatim>\<open>Clock.setBPM(x)\<close> returns with the tempo clamped into [40, 240] and the step duration
  recomputed from the clamped tempo, a number between 30 ms and 190 ms (on a clock whose
  next step time is a number between 0 and \<open>2 ^ 31\<close> s, at an audio time up to \<open>2 ^ 30\<close> s);
  \<^verbatim>\<open>BeatSequencer.setTempo(x)\<close> clamps the tempo into [40, 300] and recomputes the step
  interval from it only while the sequencer is playing.
\<close>

theorem tempo_bounds:
  assumes "x \<noteq> NaN" and "nextStepTime c = Num t" and "0 \<le> t" and "t \<le> 2 ^ 31"
    and "0 \<le> now" and "now \<le> 2 ^ 30" and "currentStep c < BEAT_STEPS"
  shows "(\<exists>c' evs b d. setBPM x now c = Some (c', evs)
      \<and> bpm c' = Num b \<and> 40 \<le> b \<and> b \<le> 240
      \<and> bpm c' = (case x of Num r \<Rightarrow> Num (max 40 (min 240 r)) | PosInf \<Rightarrow> Num 240
                   | NegInf \<Rightarrow> Num 40 | NaN \<Rightarrow> NaN)
      \<and> stepDuration c' = calculateStepDuration (bpm c')
      \<and> stepDuration c' = Num d \<and> 3/100 \<le> d \<and> d \<le> 19/100)
   \<and> (\<exists>b. seq_bpm (setTempo x s) = Num b \<and> 40 \<le> b \<and> b \<le> 300)
   \<and> seq_bpm (setTempo x s) =
       (case x of Num r \<Rightarrow> Num (max 40 (min 300 r)) | PosInf \<Rightarrow> Num 300
        | NegInf \<Rightarrow> Num 40 | NaN \<Rightarrow> NaN)
   \<and> stepInterval (setTempo x s) =
       (if seq_isPlaying s then js_div (js_div (Num 60) (seq_bpm (setTempo x s))) (Num 4)
        else stepInterval s)"
proof -
  let ?B = "js_max (Num 40) (js_min (Num 240) x)"
  from js_clamp_range[OF assms(1), of 40 240] obtain b where
    b: "?B = Num b" "40 \<le> b" "b \<le> 240"
    by auto
  have cl: "?B = (case x of Num r \<Rightarrow> Num (max 40 (min 240 r)) | PosInf \<Rightarrow> Num 240
                   | NegInf \<Rightarrow> Num 40 | NaN \<Rightarrow> NaN)"
    using js_clamp[OF assms(1), of 40 240] by simp
  from calculateStepDuration_bounds[OF b(2,3)] obtain d where
    d: "calculateStepDuration (Num b) = Num d" "3/100 \<le> d" "d \<le> 19/100"
    by blast
  let ?c2 = "c\<lparr>bpm := Num b, stepDuration := Num d\<rparr>"
  have pre: "stepDuration ?c2 = Num d" "1 / 1024 \<le> d" "d \<le> 1024"
    "nextStepTime ?c2 = Num t" "currentStep ?c2 < BEAT_STEPS"
    using d assms(2,7) by simp_all
  have "\<exists>c' evs. setBPM x now c = Some (c', evs)
      \<and> bpm c' = Num b \<and> stepDuration c' = Num d"
  proof (cases "isPlaying c \<and> js_gt (js_abs (js_sub (bpm c) (Num b))) (Num 5)")
    case True
    then have "setBPM x now c = scheduleAhead now ?c2"
      using b(1) d(1) by (simp add: setBPM_def clearScheduledEvents_def)
    with scheduleAhead_result[OF pre(1-4) assms(3-6) pre(5)] show ?thesis
      by auto
  next
    case False
    then have "setBPM x now c = Some (?c2, [])"
      using b(1) d(1) by (auto simp: setBPM_def)
    then show ?thesis by simp
  qed
  then have clock: "\<exists>c' evs b d. setBPM x now c = Some (c', evs)
      \<and> bpm c' = Num b \<and> 40 \<le> b \<and> b \<le> 240
      \<and> bpm c' = (case x of Num r \<Rightarrow> Num (max 40 (min 240 r)) | PosInf \<Rightarrow> Num 240
                   | NegInf \<Rightarrow> Num 40 | NaN \<Rightarrow> NaN)
      \<and> stepDuration c' = calculateStepDuration (bpm c')
      \<and> stepDuration c' = Num d \<and> 3/100 \<le> d \<and> d \<le> 19/100"
    using b d cl by auto
  have sb: "seq_bpm (setTempo x s) = js_max (Num 40) (js_min (Num 300) x)"
    by (simp add: setTempo_def Let_def)
  have seq1: "\<exists>b. seq_bpm (setTempo x s) = Num b \<and> 40 \<le> b \<and> b \<le> 300"
    unfolding sb using js_clamp_range[OF assms(1), of 40 300] by simp
  have seq2: "seq_bpm (setTempo x s) =
       (case x of Num r \<Rightarrow> Num (max 40 (min 300 r)) | PosInf \<Rightarrow> Num 300
        | NegInf \<Rightarrow> Num 40 | NaN \<Rightarrow> NaN)"
    unfolding sb using js_clamp[OF assms(1), of 40 300] by simp
  have seq3: "stepInterval (setTempo x s) =
       (if seq_isPlaying s then js_div (js_div (Num 60) (seq_bpm (setTempo x s))) (Num 4)
        else stepInterval s)"
    by (simp add: setTempo_def Let_def)
  from clock seq1 seq2 seq3 show ?thesis
    by blast
qed

text \<open>Instances of C4 for the clock: 1000 gives 240 and 10 gives 40.\<close>

theorem tempo_bounds_witness:
  "Num 1000 \<noteq> NaN \<and> Num 10 \<noteq> NaN \<and> nextStepTime (new_Clock (Num 120)) = Num 0
   \<and> currentStep (new_Clock (Num 120)) < BEAT_STEPS
   \<and> (\<exists>c' evs. setBPM (Num 1000) 0 (new_Clock (Num 120)) = Some (c', evs) \<and> bpm c' = Num 240)
   \<and> (\<exists>c' evs. setBPM (Num 10) 0 (new_Clock (Num 120)) = Some (c', evs) \<and> bpm c' = Num 40)"
proof -
  have h: "nextStepTime (new_Clock (Num 120)) = Num 0"
    "currentStep (new_Clock (Num 120)) < BEAT_STEPS"
    by (simp_all add: new_Clock_def BEAT_STEPS_def)
  have n: "Num 1000 \<noteq> NaN" "Num 10 \<noteq> NaN" "(0::real) \<le> 0" "(0::real) \<le> 2 ^ 31"
    "(0::real) \<le> 2 ^ 30"
    by simp_all
  from tempo_bounds [OF n(1) h(1) n(3,4) n(3,5) h(2), of new_BeatSequencer]
    tempo_bounds [OF n(2) h(1) n(3,4) n(3,5) h(2), of new_BeatSequencer] h
  show ?thesis
    by auto
qed

text \<open>
  Claim C4 as stated fails for the beat sequencer: \<^verbatim>\<open>setTempo(1000)\<close> on a new sequencer
  gives 300, which is above 240, and leaves the step interval at its initial 0.
\<close>

theorem setTempo_upper_bound_300:
  "seq_bpm (setTempo (Num 1000) new_BeatSequencer) = Num 300
   \<and> \<not> js_gt (Num 240) (seq_bpm (setTempo (Num 1000) new_BeatSequencer))
   \<and> js_gt (seq_bpm (setTempo (Num 1000) new_BeatSequencer)) (Num 240)
   \<and> stepInterval (setTempo (Num 1000) new_BeatSequencer) = Num 0"
  by (simp add: setTempo_def new_BeatSequencer_def js_max_def js_min_def js_gt_def)

subsection \<open>Drift correction\<close>

text \<open>No operation of the clock arms the 5-second interval.\<close>

lemma scheduleLoop_keeps_interval:
  assumes "scheduleLoop endTime c evs = Some r"
  shows "recalibrationInterval (fst r) = recalibrationInterval c"
proof (rule scheduleLoop.raw_induct
    [where P = "\<lambda>e c evs r. recalibrationInterval (fst r) = recalibrationInterval c", OF _ assms])
  fix loop :: "jsnum \<Rightarrow> clock \<Rightarrow> step_event list \<Rightarrow> (clock \<times> step_event list) option"
  fix e c evs r
  assume IH: "\<And>e c evs r. loop e c evs = Some r
      \<Longrightarrow> recalibrationInterval (fst r) = recalibrationInterval c"
    and body: "(if js_lt (nextStepTime c) e
         then case scheduleStep (currentStep c) (nextStepTime c) c of
                (c1, new) \<Rightarrow> loop e (advanceStep c1) (evs @ new)
         else Some (c, evs)) = Some r"
  show "recalibrationInterval (fst r) = recalibrationInterval c"
  proof (cases "js_lt (nextStepTime c) e")
    case False
    with body show ?thesis
      by auto
  next
    case True
    obtain c1 new where c1: "scheduleStep (currentStep c) (nextStepTime c) c = (c1, new)"
      by (cases "scheduleStep (currentStep c) (nextStepTime c) c")
    with True body have "loop e (advanceStep c1) (evs @ new) = Some r"
      by simp
    from IH[OF this] have "recalibrationInterval (fst r) = recalibrationInterval (advanceStep c1)" .
    also have "\<dots> = recalibrationInterval c"
      using c1 by (auto simp: advanceStep_def scheduleStep_def split: if_splits)
    finally show ?thesis .
  qed
qed

lemma scheduleAhead_keeps_interval:
  assumes "scheduleAhead now c = Some (c', evs)"
  shows "recalibrationInterval c' = recalibrationInterval c"
proof -
  from assms obtain c1 evs1 where l: "scheduleLoop (js_add (Num now) (fl 0.2)) c [] = Some (c1, evs1)"
    and c': "c' = (if isPlaying c1 then c1\<lparr>pending := pending c1 + 1\<rparr> else c1)"
    by (auto simp: scheduleAhead_def Let_def split: option.splits)
  from scheduleLoop_keeps_interval[OF l] c' show ?thesis
    by simp
qed

lemma recalibrate_keeps_interval:
  "recalibrationInterval (recalibrate now c) = recalibrationInterval c"
  by (simp add: recalibrate_def Let_def)

lemma clock_step_keeps_interval:
  assumes "clock_step x c = Some (c', evs)"
  shows "recalibrationInterval c' = recalibrationInterval c"
proof (cases x)
  case (Start now)
  with assms show ?thesis
    by (auto simp: start_def dest: scheduleAhead_keeps_interval split: if_splits)
next
  case Stop
  with assms show ?thesis
    by (auto simp: stop_def clearScheduledEvents_def)
next
  case (Fire now)
  with assms show ?thesis
    by (auto simp: fireTimeout_def dest: scheduleAhead_keeps_interval split: if_splits)
next
  case (SetBPM b now)
  with assms show ?thesis
    by (auto simp: setBPM_def Let_def clearScheduledEvents_def
        dest: scheduleAhead_keeps_interval split: if_splits)
next
  case (Recalibrate now)
  with assms show ?thesis
    by (auto simp: recalibrate_keeps_interval split: if_splits)
next
  case (Interval now)
  with assms show ?thesis
    by (auto simp: fireInterval_def recalibrate_keeps_interval split: if_splits)
qed

lemma clock_run_keeps_interval:
  "clock_run xs c = Some (c', evs) \<Longrightarrow> recalibrationInterval c' = recalibrationInterval c"
proof (induction xs arbitrary: c evs)
  case Nil
  then show ?case by simp
next
  case (Cons x xs)
  from Cons.prems obtain c1 evs1 evs2 where s: "clock_step x c = Some (c1, evs1)"
    and r: "clock_run xs c1 = Some (c', evs2)"
    by (auto split: option.splits)
  from Cons.IH[OF r] clock_step_keeps_interval[OF s] show ?case
    by simp
qed

text \<open>
  The drift that \<^verbatim>\<open>recalibrate()\<close> computes, in magnitude: the exact one up to two roundings.
\<close>

lemma drift_value:
  assumes "0 \<le> t" and "t \<le> 2 ^ 31" and "0 \<le> now" and "now \<le> 2 ^ 30"
    and "0 \<le> d" and "d \<le> 1"
  shows "\<exists>D. js_abs (js_sub (js_sub (Num t) (Num d)) (Num now)) = Num D
           \<and> \<bar>D - \<bar>t - d - now\<bar>\<bar> \<le> 1 / 100000"
proof -
  let ?e = "round53 (t - d)"
  let ?r = "round53 (?e - now)"
  have a: "t \<le> 2147483648" "now \<le> 1073741824"
    using assms by simp_all
  have "\<bar>t - d\<bar> \<le> 4294967296"
    using a assms(1,5,6) by linarith
  then have b1: "\<bar>t - d\<bar> \<le> 2 ^ 32"
    by simp
  from round53_close[OF b1] have n1: "t - d - 1 / 1000000 \<le> ?e" "?e \<le> t - d + 1 / 1000000"
    by simp_all
  have "\<bar>?e - now\<bar> \<le> 4294967296"
    using n1 a assms(1,3,5,6) by linarith
  then have b2: "\<bar>?e - now\<bar> \<le> 2 ^ 32"
    by simp
  from round53_close[OF b2] have n2: "?e - now - 1 / 1000000 \<le> ?r" "?r \<le> ?e - now + 1 / 1000000"
    by simp_all
  have "js_sub (Num t) (Num d) = Num ?e"
    using b1 by (simp add: js_sub_def fl_Num)
  moreover have "js_sub (Num ?e) (Num now) = Num ?r"
    using b2 by (simp add: js_sub_def fl_Num)
  ultimately have "js_abs (js_sub (js_sub (Num t) (Num d)) (Num now)) = Num \<bar>?r\<bar>"
    by simp
  moreover have "\<bar>\<bar>?r\<bar> - \<bar>t - d - now\<bar>\<bar> \<le> 1 / 100000"
    using n1 n2 by linarith
  ultimately show ?thesis
    by blast
qed

lemma threshold_value: "\<exists>c. fl 0.05 = Num c \<and> 1/20 \<le> c \<and> c \<le> 1/20 + 1 / 100000"
  unfolding literal_0_05 by (rule exI[of _ "3602879701896397 / 2 ^ 56"]) simp

text \<open>
  Claim C3 as stated (the next scheduling pass realigns \<open>nextStepTime\<close> to
  \<open>now + stepDuration\<close> when the drift exceeds the threshold) fails: on the default clock
  started at time 0, a pass at time 1 finds the last step 812.5 ms behind the audio clock,
  more than 60 ms, and leaves \<open>nextStepTime\<close> on the old grid, at 5/4 and not at 1 + 1/16.
\<close>

theorem scheduling_pass_does_not_realign:
  "clock_run [Start 0] (new_Clock (Num 120)) =
     Some (\<lparr>bpm = Num 120, isPlaying = True, currentStep = 4, nextStepTime = Num (1/4),
            stepDuration = Num (1/16), pending = 1, ticks = [0,1,2,3],
            recalibrationInterval = False\<rparr>,
           [(0, Num 0), (1, Num (1/16)), (2, Num (1/8)), (3, Num (3/16))])
   \<and> js_gt (js_abs (js_sub (js_sub (Num (1/4)) (Num (1/16))) (Num 1))) (fl 0.06)
   \<and> map_option (nextStepTime \<circ> fst) (clock_run [Start 0, Fire 1] (new_Clock (Num 120)))
       = Some (Num (5/4))
   \<and> js_add (Num 1) (Num (1/16)) = Num (17/16)
   \<and> Num (5/4) \<noteq> Num (17/16)"
  by (simp add: clock_eval num_eval)

text \<open>
  At the threshold the rounding decides: with the last step at 0.5 s and the audio clock at
  the number nearest to 0.55, the computed drift is -0.050000000000000044, more than 50 ms
  in magnitude, and \<^verbatim>\<open>recalibrate()\<close> moves \<open>nextStepTime\<close> from 0.5625 to 0.6125.
\<close>

lemma recalibrate_at_threshold:
  "recalibrate (2476979795053773 / 2 ^ 52)
     \<lparr>bpm = Num 120, isPlaying = True, currentStep = 9, nextStepTime = Num (9/16),
      stepDuration = Num (1/16), pending = 1, ticks = [], recalibrationInterval = False\<rparr>
   = \<lparr>bpm = Num 120, isPlaying = True, currentStep = 9,
      nextStepTime = Num (2758454771764429 / 2 ^ 52),
      stepDuration = Num (1/16), pending = 1, ticks = [], recalibrationInterval = False\<rparr>
   \<and> js_sub (js_sub (Num (9/16)) (Num (1/16))) (Num (2476979795053773 / 2 ^ 52))
       = Num (- 225179981368525 / 2 ^ 52)"
  by (simp add: recalibrate_def num_eval Let_def)

text \<open>
  Claim C3, amended. On a playing clock with a tempo from 40 to 240 bpm and its step
  duration, at audio times up to \<open>2 ^ 30\<close> s:
  \<^item> \<^verbatim>\<open>recalibrate()\<close>, called at audio time \<open>now\<close>, computes the drift
    \<open>(nextStepTime - stepDuration) - now\<close> in double precision and sets \<open>nextStepTime\<close> to
    the double-precision sum \<open>now + stepDuration\<close> when the magnitude of the drift is above
    the number nearest to 0.05, which it is when the exact drift is above 51 ms, and changes
    nothing otherwise, in particular when the exact drift is below 49 ms;
  \<^item> a second call at the same time changes nothing more;
  \<^item> after a resynchronization the next scheduling pass emits its steps from
    \<open>now + stepDuration\<close> on, with the step index where it was;
  \<^item> a scheduling pass never realigns: it leaves \<open>nextStepTime\<close> at or after the end of its
    window \<open>now + 0.2\<close>, which is later than \<open>now + stepDuration\<close>;
  \<^item> no timer calls \<^verbatim>\<open>recalibrate()\<close>: in every run from the constructor the 5-second
    interval is not armed, and its mark changes nothing.
\<close>

theorem recalibrate_resync:
  assumes "isPlaying c" and "bpm c = Num b" and "40 \<le> b" and "b \<le> 240"
    and "stepDuration c = calculateStepDuration (bpm c)"
    and "nextStepTime c = Num t" and "0 \<le> t" and "t \<le> 2 ^ 31"
    and "0 \<le> now" and "now \<le> 2 ^ 30" and "0 \<le> now'" and "now' \<le> 2 ^ 30"
    and "currentStep c < BEAT_STEPS"
  shows "recalibrate now c =
      (if js_gt (js_abs (js_sub (js_sub (nextStepTime c) (stepDuration c)) (Num now))) (fl 0.05)
       then c\<lparr>nextStepTime := js_add (Num now) (stepDuration c)\<rparr> else c)
   \<and> (\<exists>d. stepDuration c = Num d
        \<and> (51/1000 < \<bar>t - d - now\<bar> \<longrightarrow>
              recalibrate now c = c\<lparr>nextStepTime := js_add (Num now) (stepDuration c)\<rparr>)
        \<and> (\<bar>t - d - now\<bar> < 49/1000 \<longrightarrow> recalibrate now c = c))
   \<and> recalibrate now (recalibrate now c) = recalibrate now c
   \<and> (js_gt (js_abs (js_sub (js_sub (nextStepTime c) (stepDuration c)) (Num now))) (fl 0.05)
        \<longrightarrow> (\<exists>c' n d r. stepDuration c = Num d \<and> js_add (Num now) (stepDuration c) = Num r
               \<and> scheduleAhead now' (recalibrate now c)
                   = Some (c', steps_from (currentStep c) r d n)
               \<and> nextStepTime c' = Num (grid_time d r n)))
   \<and> (\<exists>c' evs. scheduleAhead now c = Some (c', evs)
        \<and> \<not> js_lt (nextStepTime c') (js_add (Num now) (fl 0.2))
        \<and> js_lt (js_add (Num now) (stepDuration c)) (nextStepTime c'))
   \<and> (\<forall>ops b0 c1 evs. clock_run ops (new_Clock b0) = Some (c1, evs) \<longrightarrow>
          \<not> recalibrationInterval c1 \<and> clock_step (Interval now) c1 = Some (c1, []))"
proof -
  from calculateStepDuration_bounds[OF assms(3,4)] assms(2,5) obtain d where
    d: "stepDuration c = Num d" "3/100 \<le> d" "d \<le> 19/100"
    by auto
  have d': "0 \<le> d" "d \<le> 1" "1 / 1024 \<le> d" "d \<le> 1024"
    using d by simp_all
  obtain c05 where c05: "fl 0.05 = Num c05" "1/20 \<le> c05" "c05 \<le> 1/20 + 1 / 100000"
    using threshold_value by blast
  have a: "now \<le> 1073741824"
    using assms(10) by simp
  let ?over = "js_gt (js_abs (js_sub (js_sub (nextStepTime c) (stepDuration c)) (Num now))) (fl 0.05)"
  let ?r = "round53 (now + d)"
  let ?c1 = "c\<lparr>nextStepTime := js_add (Num now) (stepDuration c)\<rparr>"
  have def: "recalibrate now c = (if ?over then ?c1 else c)"
    by (simp add: recalibrate_def Let_def)
  from drift_value[OF assms(7,8,9,10) d'(1,2)] obtain D where
    D: "js_abs (js_sub (js_sub (Num t) (Num d)) (Num now)) = Num D"
      "\<bar>D - \<bar>t - d - now\<bar>\<bar> \<le> 1 / 100000"
    by blast
  have over: "?over = (c05 < D)"
    using D(1) c05(1) assms(6) d(1) by (simp add: js_gt_def)
  have hi: "51/1000 < \<bar>t - d - now\<bar> \<longrightarrow> recalibrate now c = ?c1"
  proof
    assume "51/1000 < \<bar>t - d - now\<bar>"
    with D(2) c05(3) have "c05 < D"
      by linarith
    with def over show "recalibrate now c = ?c1"
      by simp
  qed
  have lo: "\<bar>t - d - now\<bar> < 49/1000 \<longrightarrow> recalibrate now c = c"
  proof
    assume "\<bar>t - d - now\<bar> < 49/1000"
    with D(2) c05(2) have "\<not> c05 < D"
      by linarith
    with def over show "recalibrate now c = c"
      by simp
  qed
  have r: "js_add (Num now) (stepDuration c) = Num ?r"
    using d(1) d' assms(9,10) by (simp add: fl_Num)
  have "\<bar>now + d\<bar> \<le> 4294967296"
    using assms(9) a d' by linarith
  then have "\<bar>now + d\<bar> \<le> 2 ^ 32"
    by simp
  from round53_close[OF this] have nr: "now + d - 1 / 1000000 \<le> ?r" "?r \<le> now + d + 1 / 1000000"
    by simp_all
  have "0 \<le> ?r" "?r \<le> 2147483648"
    using nr d(2,3) assms(9) a by linarith+
  then have r0: "0 \<le> ?r" "?r \<le> 2 ^ 31"
    by simp_all
  have c1: "stepDuration ?c1 = Num d" "nextStepTime ?c1 = Num ?r" "isPlaying ?c1"
    "currentStep ?c1 = currentStep c"
    using d(1) r assms(1) by simp_all
  from drift_value[OF r0 assms(9,10) d'(1,2)] obtain D1 where
    D1: "js_abs (js_sub (js_sub (Num ?r) (Num d)) (Num now)) = Num D1"
      "\<bar>D1 - \<bar>?r - d - now\<bar>\<bar> \<le> 1 / 100000"
    by blast
  have "\<not> c05 < D1"
    using D1(2) nr c05(2) by linarith
  then have again: "recalibrate now ?c1 = ?c1"
    using D1(1) c05(1) c1(1,2) by (simp add: recalibrate_def Let_def js_gt_def)
  have idem: "recalibrate now (recalibrate now c) = recalibrate now c"
  proof (cases ?over)
    case True
    with def again show ?thesis by simp
  next
    case False
    with def show ?thesis by simp
  qed
  have next_pass: "?over \<longrightarrow> (\<exists>c' n d r. stepDuration c = Num d
               \<and> js_add (Num now) (stepDuration c) = Num r
               \<and> scheduleAhead now' (recalibrate now c)
                   = Some (c', steps_from (currentStep c) r d n)
               \<and> nextStepTime c' = Num (grid_time d r n))"
  proof
    assume o: ?over
    have cs: "currentStep ?c1 < BEAT_STEPS"
      using assms(13) by simp
    from scheduleAhead_result[OF c1(1) d'(3,4) c1(2) r0 assms(11,12) cs] c1(3,4)
    obtain n c' where "scheduleAhead now' ?c1 = Some (c', steps_from (currentStep c) ?r d n)"
      "nextStepTime c' = Num (grid_time d ?r n)"
      by auto
    with o def d(1) r show "\<exists>c' n d r. stepDuration c = Num d
               \<and> js_add (Num now) (stepDuration c) = Num r
               \<and> scheduleAhead now' (recalibrate now c)
                   = Some (c', steps_from (currentStep c) r d n)
               \<and> nextStepTime c' = Num (grid_time d r n)"
      by auto
  qed
  from scheduleAhead_result[OF d(1) d'(3,4) assms(6,7,8,9,10,13)]
  obtain n c' E where p: "js_add (Num now) (fl 0.2) = Num E" "now + 199/1000 \<le> E"
    "scheduleAhead now c = Some (c', if isPlaying c then steps_from (currentStep c) t d n else [])"
    "nextStepTime c' = Num (grid_time d t n)" "E \<le> grid_time d t n"
    by blast
  have "?r < grid_time d t n"
    using nr(2) d(3) p(2,5) by linarith
  then have pass: "\<exists>c' evs. scheduleAhead now c = Some (c', evs)
        \<and> \<not> js_lt (nextStepTime c') (js_add (Num now) (fl 0.2))
        \<and> js_lt (js_add (Num now) (stepDuration c)) (nextStepTime c')"
    using p r by auto
  have never: "\<forall>ops b0 c1 evs. clock_run ops (new_Clock b0) = Some (c1, evs) \<longrightarrow>
          \<not> recalibrationInterval c1 \<and> clock_step (Interval now) c1 = Some (c1, [])"
  proof (intro allI impI)
    fix ops b0 c1 evs
    assume "clock_run ops (new_Clock b0) = Some (c1, evs)"
    from clock_run_keeps_interval[OF this] have "\<not> recalibrationInterval c1"
      by (simp add: new_Clock_def)
    then show "\<not> recalibrationInterval c1 \<and> clock_step (Interval now) c1 = Some (c1, [])"
      by (simp add: fireInterval_def)
  qed
  have thr: "\<exists>d. stepDuration c = Num d
        \<and> (51/1000 < \<bar>t - d - now\<bar> \<longrightarrow> recalibrate now c = ?c1)
        \<and> (\<bar>t - d - now\<bar> < 49/1000 \<longrightarrow> recalibrate now c = c)"
    using d(1) hi lo by blast
  from def thr idem next_pass pass never show ?thesis
    by blast
qed

text \<open>
  Instance of C3: the default clock after \<^verbatim>\<open>start()\<close> at time 0, recalibrated at time 1,
  where the last step is 812.5 ms behind: the next step time moves from 1/4 to 17/16, a
  second call changes nothing, and the pass at time 1 itself leaves it at 5/4.
\<close>

theorem recalibrate_resync_witness:
  "isPlaying started_clock \<and> bpm started_clock = Num 120
   \<and> stepDuration started_clock = calculateStepDuration (bpm started_clock)
   \<and> nextStepTime started_clock = Num (1/4) \<and> currentStep started_clock < BEAT_STEPS
   \<and> recalibrate 1 started_clock = started_clock\<lparr>nextStepTime := Num (17/16)\<rparr>
   \<and> recalibrate 1 (recalibrate 1 started_clock) = recalibrate 1 started_clock
   \<and> (\<exists>c' evs. scheduleAhead 1 started_clock = Some (c', evs)
        \<and> \<not> js_lt (nextStepTime c') (js_add (Num 1) (fl 0.2))
        \<and> js_lt (js_add (Num 1) (stepDuration started_clock)) (nextStepTime c'))"
proof -
  have h: "isPlaying started_clock" "bpm started_clock = Num 120"
    "stepDuration started_clock = calculateStepDuration (bpm started_clock)"
    "nextStepTime started_clock = Num (1/4)" "currentStep started_clock < BEAT_STEPS"
    by (simp_all add: started_clock_def default_stepDuration BEAT_STEPS_def)
  have n: "(40::real) \<le> 120" "(120::real) \<le> 240" "(0::real) \<le> 1/4" "(1/4::real) \<le> 2 ^ 31"
    "(0::real) \<le> 1" "(1::real) \<le> 2 ^ 30"
    by simp_all
  have v: "(51/1000::real) < \<bar>1/4 - 1/16 - 1\<bar>"
    by simp
  have s: "stepDuration started_clock = Num (1/16)"
    "js_add (Num 1) (Num (1/16)) = Num (17/16)"
    by (simp_all add: started_clock_def num_eval)
  note T = recalibrate_resync [OF h(1,2) n(1,2) h(3,4) n(3,4) n(5,6) n(5,6) h(5)]
  from T[THEN conjunct2, THEN conjunct1] obtain d where
    d: "stepDuration started_clock = Num d"
      "51/1000 < \<bar>1/4 - d - 1\<bar> \<longrightarrow> recalibrate 1 started_clock
         = started_clock\<lparr>nextStepTime := js_add (Num 1) (stepDuration started_clock)\<rparr>"
    by blast
  from d(1) s(1) have "d = 1/16"
    by simp
  with d(2) v s have r1: "recalibrate 1 started_clock = started_clock\<lparr>nextStepTime := Num (17/16)\<rparr>"
    by simp
  note r2 = T[THEN conjunct2, THEN conjunct2, THEN conjunct1]
  note r3 = T[THEN conjunct2, THEN conjunct2, THEN conjunct2, THEN conjunct2, THEN conjunct1]
  from h r1 r2 r3 show ?thesis
    by (intro conjI)
qed

section \<open>Properties of patterns\<close>


lemma js_get_put: "js_get (js_put xs i v) j = (if j = i then v else js_get xs j)"
  by (auto simp: js_get_def js_put_def nth_append nth_Cons')

lemma length_js_put_in: "i < length xs \<Longrightarrow> length (js_put xs i v) = length xs"
  by (simp add: js_put_def)

lemma length_js_fill: "length (js_fill xs v) = length xs"
  by (simp add: js_fill_def)

lemma length_new_Array_fill: "length (new_Array_fill n v) = n"
  by (simp add: new_Array_fill_def)

lemma js_get_new_Array_fill: "js_get (new_Array_fill n v) i = (if i < n then Some v else None)"
  by (simp add: js_get_def new_Array_fill_def)

lemma js_rem_less: "0 < b \<Longrightarrow> js_rem a b < b"
proof -
  assume b: "0 < b"
  have "\<bar>a\<bar> mod \<bar>b\<bar> < b" "0 \<le> \<bar>a\<bar> mod \<bar>b\<bar>"
    using b by simp_all
  then show ?thesis
    by (cases "a < 0"; cases "a = 0") (simp_all add: js_rem_def sgn_if)
qed

lemma length_js_put_int: "k < int (length xs) \<Longrightarrow> length (js_put_int xs k v) = length xs"
  by (simp add: js_put_int_def length_js_put_in)

lemma fold_pair:
  "fold (\<lambda>i (a, b). (f i a, g i b)) xs (a0, b0) = (fold f xs a0, fold g xs b0)"
  by (induction xs arbitrary: a0 b0) simp_all

lemma update_new_key: "k \<notin> fst ` set al \<Longrightarrow> AList.update k v al = al @ [(k, v)]"
  by (induction al) auto

lemma fold_update_distinct:
  "distinct (map fst (acc @ es)) \<Longrightarrow>
   fold (\<lambda>(k, v) m. AList.update k v m) es acc = acc @ es"
proof (induction es arbitrary: acc)
  case Nil
  show ?case by simp
next
  case (Cons e es)
  obtain k v where e: "e = (k, v)" by (cases e)
  have "k \<notin> fst ` set acc"
    using Cons.prems e by auto
  then have "AList.update k v acc = acc @ [(k, v)]"
    by (rule update_new_key)
  moreover have "distinct (map fst ((acc @ [(k, v)]) @ es))"
    using Cons.prems e by simp
  ultimately show ?case
    using Cons.IH[of "acc @ [(k, v)]"] e by simp
qed

lemma Map_of_entries_id: "is_Map m \<Longrightarrow> Map_of_entries m = m"
  using fold_update_distinct[of "[]" m] by (simp add: Map_of_entries_def is_Map_def)

lemma is_Map_update: "is_Map m \<Longrightarrow> is_Map (AList.update k v m)"
  by (simp add: is_Map_def distinct_update)

lemma is_Map_fold_update:
  "is_Map acc \<Longrightarrow> is_Map (fold (\<lambda>(k, v) m. AList.update k (f k v) m) es acc)"
  by (induction es arbitrary: acc) (auto simp: is_Map_update)

lemma is_Map_Map_of_entries: "is_Map (Map_of_entries es)"
  using is_Map_fold_update[of "[]" "\<lambda>k v. v" es] by (simp add: Map_of_entries_def is_Map_def)

lemma recordNote_read:
  assumes "map_of (tracks p) n \<noteq> None \<longrightarrow> map_of (velocities p) n \<noteq> None"
  shows "\<exists>p'. recordNote n step v p = Inr p'
          \<and> getStep p' n step = 1 \<and> getVelocity p' n step = max 0.1 (min 1 v)
          \<and> steps p' = steps p \<and> name p' = name p \<and> pid p' = pid p
          \<and> manuallyTriggeredNotes p' = manuallyTriggeredNotes p
          \<and> lastStepTriggered p' = lastStepTriggered p
          \<and> (\<forall>m. m \<noteq> n \<longrightarrow> map_of (tracks p') m = map_of (tracks p) m
                         \<and> map_of (velocities p') m = map_of (velocities p) m)
          \<and> map fst (tracks p') = map fst (tracks (addTrack n p))"
proof (cases "map_of (tracks p) n")
  case None
  then show ?thesis
    by (simp add: recordNote_def Let_def update_conv' getStep_def getVelocity_def js_get_put
        addTrack_def update_keys split: option.splits)
next
  case (Some tr)
  with assms obtain ve where "map_of (velocities p) n = Some ve"
    by auto
  moreover have "n \<in> fst ` set (tracks p)"
    using Some by (metis map_of_eq_None_iff option.distinct(1))
  ultimately show ?thesis
    using Some
    by (auto simp add: recordNote_def Let_def update_conv' getStep_def getVelocity_def js_get_put
        addTrack_def update_keys)
qed


lemma pattern_inv_iff:
  assumes "is_Map (tracks p)"
  shows "pattern_inv p \<longleftrightarrow>
     (\<forall>n tr. map_of (tracks p) n = Some tr \<longrightarrow>
        length tr = steps p \<and> (\<exists>ve. map_of (velocities p) n = Some ve \<and> length ve = steps p))"
proof -
  have mem: "\<And>n tr. (map_of (tracks p) n = Some tr) = ((n, tr) \<in> set (tracks p))"
    using assms by (simp add: is_Map_def)
  show ?thesis
    unfolding pattern_inv_def list_all_iff mem
    by (fastforce split: option.splits)
qed

lemma forEach_tracks_result:
  assumes "distinct (map fst es)"
    and "\<forall>(n, tr)\<in>set es. \<exists>ve. map_of vs n = Some ve"
    and "\<And>tr ve. body tr (Some ve) = Inr (NT tr, NV ve)"
  shows "\<exists>ts' vs'. forEach_tracks body es (ts, vs) = Inr (ts', vs')
          \<and> (\<forall>k. map_of ts' k = (case map_of es k of Some tr \<Rightarrow> Some (NT tr) | None \<Rightarrow> map_of ts k))
          \<and> (\<forall>k. map_of vs' k = (case map_of es k of
                                     Some tr \<Rightarrow> map_option NV (map_of vs k)
                                   | None \<Rightarrow> map_of vs k))
          \<and> (is_Map ts \<longrightarrow> is_Map ts') \<and> (is_Map vs \<longrightarrow> is_Map vs')"
  using assms(1,2)
proof (induction es arbitrary: ts vs)
  case Nil
  show ?case by simp
next
  case (Cons e es)
  obtain n tr where e: "e = (n, tr)" by (cases e)
  from Cons.prems(2) e obtain ve where ve: "map_of vs n = Some ve"
    by auto
  let ?ts1 = "AList.update n (NT tr) ts" and ?vs1 = "AList.update n (NV ve) vs"
  have step: "forEach_tracks body (e # es) (ts, vs) = forEach_tracks body es (?ts1, ?vs1)"
    using e ve assms(3) by simp
  have notin: "n \<notin> fst ` set es" and d: "distinct (map fst es)"
    using Cons.prems(1) e by auto
  have rest: "\<forall>(m, t)\<in>set es. \<exists>ve. map_of ?vs1 m = Some ve"
    using Cons.prems(2) by (auto simp: update_conv')
  from Cons.IH[OF d rest, of ?ts1]
  obtain ts' vs' where r: "forEach_tracks body es (?ts1, ?vs1) = Inr (ts', vs')"
    "\<forall>k. map_of ts' k = (case map_of es k of Some tr \<Rightarrow> Some (NT tr) | None \<Rightarrow> map_of ?ts1 k)"
    "\<forall>k. map_of vs' k = (case map_of es k of Some tr \<Rightarrow> map_option NV (map_of ?vs1 k)
                                   | None \<Rightarrow> map_of ?vs1 k)"
    "is_Map ?ts1 \<longrightarrow> is_Map ts'" "is_Map ?vs1 \<longrightarrow> is_Map vs'"
    by blast
  have none: "map_of es n = None"
    using notin by (simp add: map_of_eq_None_iff)
  have t: "\<forall>k. map_of ts' k =
      (case map_of (e # es) k of Some tr \<Rightarrow> Some (NT tr) | None \<Rightarrow> map_of ts k)"
    using r(2) e none by (auto simp: update_conv' split: option.splits)
  have v: "\<forall>k. map_of vs' k =
      (case map_of (e # es) k of Some tr \<Rightarrow> map_option NV (map_of vs k) | None \<Rightarrow> map_of vs k)"
    using r(3) e none ve by (auto simp: update_conv' split: option.splits)
  from step r(1) t v r(4,5) show ?case
    by (auto simp: is_Map_update)
qed

lemma length_fold_put:
  assumes "\<And>i xs. i \<in> set is \<Longrightarrow> length xs = n \<Longrightarrow> length (f i xs) = n"
  shows "length xs = n \<Longrightarrow> length (fold f is xs) = n"
  using assms by (induction "is" arbitrary: xs) simp_all


subsection \<open>The copy loops\<close>

lemma double_track_Some:
  "double_track n tr (Some ve) = Inr (double_copy n 0 tr, double_copy n 1 ve)"
  by (simp add: double_track_def double_copy_def fold_pair)

lemma halve_track_Some:
  "halve_track m tr (Some ve) = Inr (halve_copy m 0 tr, halve_copy m 1 ve)"
  by (simp add: halve_track_def halve_copy_def fold_pair)

lemma shift_track_Some:
  "shift_track n a tr (Some ve) = Inr (shift_copy n a 0 tr, shift_copy n a 1 ve)"
  by (simp add: shift_track_def shift_copy_def fold_pair Let_def)

lemma length_double_copy: "length (double_copy n z src) = n * 2"
  unfolding double_copy_def
  by (rule length_fold_put) (simp_all add: length_js_put_in length_new_Array_fill)

lemma length_halve_copy: "length (halve_copy m z src) = m"
  unfolding halve_copy_def
  by (rule length_fold_put) (simp_all add: length_js_put_in length_new_Array_fill)

lemma length_shift_copy: "length (shift_copy n a z src) = n"
  unfolding shift_copy_def
proof (rule length_fold_put)
  fix i and xs :: "'a option list"
  assume "i \<in> set [0..<n]" and len: "length xs = n"
  then have "0 < int n" by simp
  then have "js_rem (int i + a + int n) (int n) < int (length xs)"
    using len by (simp add: js_rem_less)
  then show "length (js_put_int xs (js_rem (int i + a + int n) (int n)) (js_get src i)) = n"
    using len by (simp add: length_js_put_int)
qed (simp add: length_new_Array_fill)

lemma js_get_double_prefix:
  "k \<le> n \<Longrightarrow>
   js_get (fold (\<lambda>i nt. js_put (js_put nt i (js_get src i)) (i + n) (js_get src i))
             [0..<k] (new_Array_fill (n * 2) z)) j =
     (if j < k then js_get src j
      else if n \<le> j \<and> j < n + k then js_get src (j - n)
      else if j < n * 2 then Some z else None)"
proof (induction k)
  case 0
  show ?case by (auto simp: js_get_new_Array_fill)
next
  case (Suc k)
  then have "k \<le> n" by simp
  from Suc.IH[OF this] Suc.prems show ?case
    by (auto simp: js_get_put)
qed

lemma js_get_double_copy:
  "js_get (double_copy n z src) j =
     (if j < n then js_get src j else if j < n * 2 then js_get src (j - n) else None)"
  using js_get_double_prefix[of n n src z j] by (auto simp: double_copy_def)

lemma js_get_halve_prefix:
  "k \<le> m \<Longrightarrow>
   js_get (fold (\<lambda>i nt. js_put nt i (js_get src i)) [0..<k] (new_Array_fill m z)) j =
     (if j < k then js_get src j else if j < m then Some z else None)"
proof (induction k)
  case 0
  show ?case by (simp add: js_get_new_Array_fill)
next
  case (Suc k)
  then have "k \<le> m" by simp
  from Suc.IH[OF this] Suc.prems show ?case
    by (auto simp: js_get_put)
qed

lemma js_get_halve_copy:
  "js_get (halve_copy m z src) j = (if j < m then js_get src j else None)"
  using js_get_halve_prefix[of m m src z j] by (auto simp: halve_copy_def)


lemma transform_result:
  assumes ok: "pattern_ok p"
    and body: "\<And>tr ve. body tr (Some ve) = Inr (NT tr, NV ve)"
    and len: "\<And>tr. length (NT tr) = N" "\<And>ve. length (NV ve) = N"
  shows "\<exists>ts' vs'. forEach_tracks body (tracks p) (tracks p, velocities p) = Inr (ts', vs')
          \<and> (\<forall>k. map_of ts' k = map_option NT (map_of (tracks p) k))
          \<and> (\<forall>k. map_of vs' k = (if map_of (tracks p) k = None then map_of (velocities p) k
                                    else map_option NV (map_of (velocities p) k)))
          \<and> pattern_ok (p\<lparr>tracks := ts', velocities := vs', steps := N\<rparr>)"
proof -
  have m: "is_Map (tracks p)" "is_Map (velocities p)" and inv: "pattern_inv p"
    using ok by (simp_all add: pattern_ok_def)
  have d: "distinct (map fst (tracks p))"
    using m(1) by (simp add: is_Map_def)
  have has: "\<forall>(n, tr)\<in>set (tracks p). \<exists>ve. map_of (velocities p) n = Some ve"
    using inv by (auto simp: pattern_inv_def list_all_iff split: option.splits)
  from forEach_tracks_result[where NT=NT and NV=NV and body=body, OF d has body, of "tracks p"]
  obtain ts' vs' where r:
    "forEach_tracks body (tracks p) (tracks p, velocities p) = Inr (ts', vs')"
    "\<forall>k. map_of ts' k = (case map_of (tracks p) k of Some tr \<Rightarrow> Some (NT tr)
                                | None \<Rightarrow> map_of (tracks p) k)"
    "\<forall>k. map_of vs' k = (case map_of (tracks p) k of
                                     Some tr \<Rightarrow> map_option NV (map_of (velocities p) k)
                                   | None \<Rightarrow> map_of (velocities p) k)"
    "is_Map (tracks p) \<longrightarrow> is_Map ts'" "is_Map (velocities p) \<longrightarrow> is_Map vs'"
    by blast
  have t: "\<forall>k. map_of ts' k = map_option NT (map_of (tracks p) k)"
    using r(2) by (auto split: option.splits)
  have v: "\<forall>k. map_of vs' k = (if map_of (tracks p) k = None then map_of (velocities p) k
                                    else map_option NV (map_of (velocities p) k))"
    using r(3) by (auto split: option.splits)
  let ?p' = "p\<lparr>tracks := ts', velocities := vs', steps := N\<rparr>"
  have maps: "is_Map (tracks ?p')" "is_Map (velocities ?p')"
    using r(4,5) m by simp_all
  have old: "\<And>n tr. map_of (tracks p) n = Some tr \<Longrightarrow> \<exists>ve. map_of (velocities p) n = Some ve"
    using inv m(1) by (auto simp: pattern_inv_iff)
  have "pattern_inv ?p'"
    unfolding pattern_inv_iff[OF maps(1)]
  proof (intro allI impI)
    fix n tr' assume "map_of (tracks ?p') n = Some tr'"
    then obtain tr where tr: "map_of (tracks p) n = Some tr" "tr' = NT tr"
      using t by auto
    from old[OF tr(1)] obtain ve where ve: "map_of (velocities p) n = Some ve"
      by blast
    have "map_of (velocities ?p') n = Some (NV ve)"
      using v tr(1) ve by simp
    then show "length tr' = steps ?p' \<and>
        (\<exists>ve. map_of (velocities ?p') n = Some ve \<and> length ve = steps ?p')"
      using tr(2) len by simp
  qed
  with maps have "pattern_ok ?p'"
    by (simp add: pattern_ok_def)
  with r(1) t v show ?thesis
    by blast
qed

lemma double_result:
  assumes ok: "pattern_ok p" and small: "steps p < 64"
  shows "\<exists>d. double p = Inr d \<and> steps d = steps p * 2 \<and> pattern_ok d
          \<and> (\<forall>k. map_of (tracks d) k = map_option (double_copy (steps p) 0) (map_of (tracks p) k))
          \<and> (\<forall>k. map_of (tracks p) k \<noteq> None \<longrightarrow>
                  map_of (velocities d) k = map_option (double_copy (steps p) 1) (map_of (velocities p) k))"
proof -
  from transform_result[where NT="double_copy (steps p) 0" and NV="double_copy (steps p) 1"
      and body="double_track (steps p)" and N="steps p * 2",
      OF ok double_track_Some length_double_copy length_double_copy]
  obtain ts' vs' where r:
    "forEach_tracks (double_track (steps p)) (tracks p) (tracks p, velocities p) = Inr (ts', vs')"
    "\<forall>k. map_of ts' k = map_option (double_copy (steps p) 0) (map_of (tracks p) k)"
    "\<forall>k. map_of vs' k = (if map_of (tracks p) k = None then map_of (velocities p) k
                 else map_option (double_copy (steps p) 1) (map_of (velocities p) k))"
    "pattern_ok (p\<lparr>tracks := ts', velocities := vs', steps := steps p * 2\<rparr>)"
    by auto
  have "double p = Inr (p\<lparr>tracks := ts', velocities := vs', steps := steps p * 2\<rparr>)"
    using small r(1) by (simp add: double_def Let_def)
  with r(2-4) show ?thesis
    by auto
qed

lemma halve_result:
  assumes ok: "pattern_ok p" and big: "4 < steps p" and ev: "even (steps p)"
  shows "\<exists>h. halve p = Inr h \<and> steps h = steps p div 2 \<and> pattern_ok h
          \<and> (\<forall>k. map_of (tracks h) k = map_option (halve_copy (steps p div 2) 0) (map_of (tracks p) k))
          \<and> (\<forall>k. map_of (tracks p) k \<noteq> None \<longrightarrow>
                  map_of (velocities h) k = map_option (halve_copy (steps p div 2) 1) (map_of (velocities p) k))"
proof -
  from transform_result[where NT="halve_copy (steps p div 2) 0"
      and NV="halve_copy (steps p div 2) 1"
      and body="halve_track (steps p div 2)" and N="steps p div 2",
      OF ok halve_track_Some length_halve_copy length_halve_copy]
  obtain ts' vs' where r:
    "forEach_tracks (halve_track (steps p div 2)) (tracks p) (tracks p, velocities p) = Inr (ts', vs')"
    "\<forall>k. map_of ts' k = map_option (halve_copy (steps p div 2) 0) (map_of (tracks p) k)"
    "\<forall>k. map_of vs' k = (if map_of (tracks p) k = None then map_of (velocities p) k
                 else map_option (halve_copy (steps p div 2) 1) (map_of (velocities p) k))"
    "pattern_ok (p\<lparr>tracks := ts', velocities := vs', steps := steps p div 2\<rparr>)"
    by auto
  have "halve p = Inr (p\<lparr>tracks := ts', velocities := vs', steps := steps p div 2\<rparr>)"
    using big ev r(1) by (simp add: halve_def Let_def)
  with r(2-4) show ?thesis
    by auto
qed

lemma shift_result:
  assumes ok: "pattern_ok p"
  shows "\<exists>p'. shift a p = Inr p' \<and> steps p' = steps p \<and> pattern_ok p'"
proof -
  from transform_result[where NT="shift_copy (steps p) a 0" and NV="shift_copy (steps p) a 1"
      and body="shift_track (steps p) a" and N="steps p",
      OF ok shift_track_Some length_shift_copy length_shift_copy]
  obtain ts' vs' where r:
    "forEach_tracks (shift_track (steps p) a) (tracks p) (tracks p, velocities p) = Inr (ts', vs')"
    "pattern_ok (p\<lparr>tracks := ts', velocities := vs', steps := steps p\<rparr>)"
    by auto
  have "p\<lparr>tracks := ts', velocities := vs', steps := steps p\<rparr> = p\<lparr>tracks := ts', velocities := vs'\<rparr>"
    by simp
  with r show ?thesis
    by (auto simp: shift_def)
qed

subsection \<open>Doubling and halving\<close>

lemma getStep_double:
  assumes "pattern_ok p" and "steps p < 64" and "double p = Inr d"
  shows "getStep d k i = (if i < steps p * 2 then getStep p k (i mod steps p) else 0)"
proof -
  from double_result[OF assms(1,2)] assms(3)
  have t: "map_of (tracks d) k = map_option (double_copy (steps p) 0) (map_of (tracks p) k)"
    by auto
  show ?thesis
  proof (cases "map_of (tracks p) k")
    case None
    with t show ?thesis by (simp add: getStep_def)
  next
    case (Some tr)
    have "i < steps p * 2 \<Longrightarrow> \<not> i < steps p \<Longrightarrow> i mod steps p = i - steps p"
      by (simp add: le_mod_geq)
    with Some t show ?thesis
      by (simp add: getStep_def js_get_double_copy)
  qed
qed

lemma getVelocity_double:
  assumes "pattern_ok p" and "steps p < 64" and "double p = Inr d"
    and "map_of (tracks p) k \<noteq> None"
  shows "getVelocity d k i = (if i < steps p * 2 then getVelocity p k (i mod steps p) else 1)"
proof -
  from double_result[OF assms(1,2)] assms(3,4)
  have t: "map_of (velocities d) k = map_option (double_copy (steps p) 1) (map_of (velocities p) k)"
    by auto
  show ?thesis
  proof (cases "map_of (velocities p) k")
    case None
    with t show ?thesis by (simp add: getVelocity_def)
  next
    case (Some ve)
    have "i < steps p * 2 \<Longrightarrow> \<not> i < steps p \<Longrightarrow> i mod steps p = i - steps p"
      by (simp add: le_mod_geq)
    with Some t show ?thesis
      by (simp add: getVelocity_def js_get_double_copy)
  qed
qed

lemma getStep_halve:
  assumes "pattern_ok p" and "4 < steps p" and "even (steps p)" and "halve p = Inr h"
  shows "getStep h k i = (if i < steps p div 2 then getStep p k i else 0)"
proof -
  from halve_result[OF assms(1-3)] assms(4)
  have t: "map_of (tracks h) k = map_option (halve_copy (steps p div 2) 0) (map_of (tracks p) k)"
    by auto
  then show ?thesis
    by (cases "map_of (tracks p) k") (simp_all add: getStep_def js_get_halve_copy)
qed

lemma getVelocity_halve:
  assumes "pattern_ok p" and "4 < steps p" and "even (steps p)" and "halve p = Inr h"
    and "map_of (tracks p) k \<noteq> None"
  shows "getVelocity h k i = (if i < steps p div 2 then getVelocity p k i else 1)"
proof -
  from halve_result[OF assms(1-3)] assms(4,5)
  have t: "map_of (velocities h) k = map_option (halve_copy (steps p div 2) 1) (map_of (velocities p) k)"
    by auto
  then show ?thesis
    by (cases "map_of (velocities p) k") (simp_all add: getVelocity_def js_get_halve_copy)
qed

lemma double_positions:
  "(i < 64 \<and> i mod 32 \<in> {0, 8, 16, 24}) = ((i::nat) \<in> {0, 8, 16, 24, 32, 40, 48, 56})"
proof (cases "i < 32")
  case True
  then show ?thesis by auto
next
  case False
  then have "i < 64 \<Longrightarrow> i mod 32 = i - 32"
    by (simp add: le_mod_geq)
  with False show ?thesis by auto
qed

text \<open>
  Claim C8 (pattern length transforms). For every 32-step pattern that satisfies the data
  invariant and has note 36 active exactly at the steps 0, 8, 16 and 24: \<^verbatim>\<open>double()\<close>
  returns a 64-step pattern with note 36 active exactly at 0, 8, 16, 24, 32, 40, 48 and
  56, the velocity of each step being that of the step it was copied from; \<^verbatim>\<open>halve()\<close>
  returns a 16-step pattern with note 36 active exactly at 0 and 8, with the velocities of
  the first half. \<^verbatim>\<open>double()\<close> changes nothing from 64 steps up and \<^verbatim>\<open>halve()\<close> changes
  nothing up to 4 steps.
\<close>

theorem pattern_length_transforms:
  assumes "pattern_ok p" and "steps p = 32"
    and "\<forall>i. (0 < getStep p 36 i) = (i \<in> {0, 8, 16, 24})"
  shows "(\<exists>d. double p = Inr d \<and> steps d = 64 \<and> pattern_ok d
            \<and> (\<forall>i. (0 < getStep d 36 i) = (i \<in> {0, 8, 16, 24, 32, 40, 48, 56}))
            \<and> (\<forall>i<64. getVelocity d 36 i = getVelocity p 36 (i mod 32)))
       \<and> (\<exists>h. halve p = Inr h \<and> steps h = 16 \<and> pattern_ok h
            \<and> (\<forall>i. (0 < getStep h 36 i) = (i \<in> {0, 8}))
            \<and> (\<forall>i<16. getVelocity h 36 i = getVelocity p 36 i))
       \<and> (\<forall>q. 64 \<le> steps q \<longrightarrow> double q = Inr q)
       \<and> (\<forall>q. steps q \<le> 4 \<longrightarrow> halve q = Inr q)"
proof -
  have has: "map_of (tracks p) 36 \<noteq> None"
  proof
    assume "map_of (tracks p) 36 = None"
    then have "getStep p 36 0 = 0" by (simp add: getStep_def)
    moreover have "(0 < getStep p 36 0) = (0 \<in> {0::nat, 8, 16, 24})"
      by (rule spec[OF assms(3)])
    ultimately show False by simp
  qed
  have small: "steps p < 64" and big: "4 < steps p" and ev: "even (steps p)"
    using assms(2) by simp_all
  from double_result[OF assms(1) small] obtain d where
    d: "double p = Inr d" "steps d = steps p * 2" "pattern_ok d"
    by blast
  have dstep: "\<forall>i. (0 < getStep d 36 i) = (i \<in> {0, 8, 16, 24, 32, 40, 48, 56})"
  proof
    fix i
    have old: "(0 < getStep p 36 (i mod 32)) = (i mod 32 \<in> {0, 8, 16, 24})"
      by (rule spec[OF assms(3)])
    have "getStep d 36 i = (if i < 64 then getStep p 36 (i mod 32) else 0)"
      using getStep_double[OF assms(1) small d(1), of 36 i] assms(2) by simp
    then have "(0 < getStep d 36 i) = (i < 64 \<and> i mod 32 \<in> {0, 8, 16, 24})"
      using old by (cases "i < 64") simp_all
    also have "\<dots> = (i \<in> {0, 8, 16, 24, 32, 40, 48, 56})"
      by (rule double_positions)
    finally show "(0 < getStep d 36 i) = (i \<in> {0, 8, 16, 24, 32, 40, 48, 56})" .
  qed
  have dvel: "\<forall>i<64. getVelocity d 36 i = getVelocity p 36 (i mod 32)"
    using getVelocity_double[OF assms(1) small d(1) has] assms(2) by simp
  from halve_result[OF assms(1) big ev] obtain h where
    h: "halve p = Inr h" "steps h = steps p div 2" "pattern_ok h"
    by blast
  have hstep: "\<forall>i. (0 < getStep h 36 i) = (i \<in> {0, 8})"
  proof
    fix i
    have old: "(0 < getStep p 36 i) = (i \<in> {0, 8, 16, 24})"
      by (rule spec[OF assms(3)])
    have "getStep h 36 i = (if i < 16 then getStep p 36 i else 0)"
      using getStep_halve[OF assms(1) big ev h(1), of 36 i] assms(2) by simp
    then have "(0 < getStep h 36 i) = (i < 16 \<and> i \<in> {0, 8, 16, 24})"
      using old by (cases "i < 16") simp_all
    also have "\<dots> = (i \<in> {0, 8})"
      by auto
    finally show "(0 < getStep h 36 i) = (i \<in> {0, 8})" .
  qed
  have hvel: "\<forall>i<16. getVelocity h 36 i = getVelocity p 36 i"
    using getVelocity_halve[OF assms(1) big ev h(1) has] assms(2) by simp
  have noop: "\<forall>q. 64 \<le> steps q \<longrightarrow> double q = Inr q" "\<forall>q. steps q \<le> 4 \<longrightarrow> halve q = Inr q"
    by (simp_all add: double_def halve_def)
  have sd: "steps d = 64" and sh: "steps h = 16"
    using d(2) h(2) assms(2) by simp_all
  have D: "\<exists>d. double p = Inr d \<and> steps d = 64 \<and> pattern_ok d
            \<and> (\<forall>i. (0 < getStep d 36 i) = (i \<in> {0, 8, 16, 24, 32, 40, 48, 56}))
            \<and> (\<forall>i<64. getVelocity d 36 i = getVelocity p 36 (i mod 32))"
    by (intro exI[of _ d] conjI) (fact d(1) sd d(3) dstep dvel)+
  have H: "\<exists>h. halve p = Inr h \<and> steps h = 16 \<and> pattern_ok h
            \<and> (\<forall>i. (0 < getStep h 36 i) = (i \<in> {0, 8}))
            \<and> (\<forall>i<16. getVelocity h 36 i = getVelocity p 36 i)"
    by (intro exI[of _ h] conjI) (fact h(1) sh h(3) hstep hvel)+
  from D H noop show ?thesis
    by (intro conjI)
qed

lemma kick_positions: "(i < 32 \<and> i mod 8 = 0) = ((i::nat) \<in> {0, 8, 16, 24})"
proof -
  have "(i < 32 \<and> i mod 8 = 0) = (i = 0 \<or> i = 8 \<or> i = 16 \<or> i = 24)"
    by presburger
  then show ?thesis
    by simp
qed

lemma kick_pattern_ok: "pattern_ok kick_pattern"
  by (simp add: kick_pattern_def new_Pattern_def pattern_ok_def is_Map_def pattern_inv_def
      new_Array_fill_def)

lemma kick_pattern_active: "\<forall>i. (0 < getStep kick_pattern 36 i) = (i \<in> {0, 8, 16, 24})"
proof
  fix i :: nat
  have "(0 < getStep kick_pattern 36 i) = (i < 32 \<and> i mod 8 = 0)"
    by (simp add: kick_pattern_def getStep_def js_get_def)
  then show "(0 < getStep kick_pattern 36 i) = (i \<in> {0, 8, 16, 24})"
    by (simp only: kick_positions)
qed

text \<open>
  Witness for C8: the pattern with note 36 on every eighth step of 32 satisfies the
  hypotheses, so it doubles to 64 steps and halves to 16 as stated.
\<close>

theorem pattern_length_transforms_witness:
  "pattern_ok kick_pattern \<and> steps kick_pattern = 32
   \<and> (\<forall>i. (0 < getStep kick_pattern 36 i) = (i \<in> {0, 8, 16, 24}))
   \<and> (\<exists>d. double kick_pattern = Inr d \<and> steps d = 64
          \<and> (\<forall>i. (0 < getStep d 36 i) = (i \<in> {0, 8, 16, 24, 32, 40, 48, 56})))
   \<and> (\<exists>h. halve kick_pattern = Inr h \<and> steps h = 16
          \<and> (\<forall>i. (0 < getStep h 36 i) = (i \<in> {0, 8})))"
proof -
  have s: "steps kick_pattern = 32"
    by (simp add: kick_pattern_def new_Pattern_def)
  from pattern_length_transforms [OF kick_pattern_ok s kick_pattern_active]
    kick_pattern_ok s kick_pattern_active
  show ?thesis
    by blast
qed


subsection \<open>The invariant under the operations\<close>

lemma pattern_ok_update:
  assumes "pattern_ok p" and "length tr' = steps p" and "length ve' = steps p"
  shows "pattern_ok (p\<lparr>tracks := AList.update n tr' (tracks p),
                        velocities := AList.update n ve' (velocities p)\<rparr>)"
proof -
  let ?p' = "p\<lparr>tracks := AList.update n tr' (tracks p),
                velocities := AList.update n ve' (velocities p)\<rparr>"
  have m: "is_Map (tracks p)" "is_Map (velocities p)" and inv: "pattern_inv p"
    using assms(1) by (simp_all add: pattern_ok_def)
  have maps: "is_Map (tracks ?p')" "is_Map (velocities ?p')"
    using m by (simp_all add: is_Map_update)
  have "pattern_inv ?p'"
    unfolding pattern_inv_iff[OF maps(1)]
    using inv assms(2,3) by (auto simp: pattern_inv_iff[OF m(1)] update_conv')
  with maps show ?thesis
    by (simp add: pattern_ok_def)
qed

lemma pattern_ok_track:
  assumes "pattern_ok p" and "map_of (tracks p) n = Some tr"
  shows "length tr = steps p \<and> (\<exists>ve. map_of (velocities p) n = Some ve \<and> length ve = steps p)"
proof -
  have "is_Map (tracks p)" "pattern_inv p"
    using assms(1) by (simp_all add: pattern_ok_def)
  then show ?thesis
    using assms(2) pattern_inv_iff[of p] by blast
qed

lemma addTrack_ok: "pattern_ok p \<Longrightarrow> pattern_ok (addTrack n p)"
  using pattern_ok_update[of p "new_Array_fill (steps p) 0" "new_Array_fill (steps p) 1" n]
  by (simp add: addTrack_def length_new_Array_fill)

lemma recordNote_ok:
  assumes "pattern_ok p" and "step < steps p"
  shows "\<exists>p'. recordNote n step v p = Inr p' \<and> pattern_ok p' \<and> steps p' = steps p"
proof -
  let ?p1 = "addTrack n p"
  have ok1: "pattern_ok ?p1" and s1: "steps ?p1 = steps p"
    using assms(1) by (simp_all add: addTrack_ok) (simp add: addTrack_def)
  have "map_of (tracks ?p1) n \<noteq> None"
    by (simp add: addTrack_def update_conv')
  then obtain tr where tr: "map_of (tracks ?p1) n = Some tr"
    by blast
  from pattern_ok_track[OF ok1 tr] obtain ve where ve: "map_of (velocities ?p1) n = Some ve"
    and len: "length tr = steps ?p1" "length ve = steps ?p1"
    by blast
  let ?p' = "?p1\<lparr>tracks := AList.update n (js_put tr step (Some 1)) (tracks ?p1),
                 velocities := AList.update n (js_put ve step (Some (max 0.1 (min 1 v))))
                                 (velocities ?p1)\<rparr>"
  have "recordNote n step v p = Inr ?p'"
    using tr ve by (simp add: recordNote_def addTrack_def Let_def)
  moreover have "pattern_ok ?p'"
    using ok1 len s1 assms(2) by (intro pattern_ok_update) (simp_all add: length_js_put_in)
  ultimately show ?thesis
    using s1 by simp
qed

lemma clearTrack_ok:
  assumes "pattern_ok p"
  shows "\<exists>p'. clearTrack n p = Inr p' \<and> pattern_ok p'"
proof (cases "map_of (tracks p) n")
  case None
  with assms show ?thesis by (simp add: clearTrack_def)
next
  case (Some tr)
  from pattern_ok_track[OF assms Some] obtain ve where ve: "map_of (velocities p) n = Some ve"
    and len: "length tr = steps p" "length ve = steps p"
    by blast
  have "pattern_ok (p\<lparr>tracks := AList.update n (js_fill tr 0) (tracks p),
                      velocities := AList.update n (js_fill ve 1) (velocities p)\<rparr>)"
    using assms len by (intro pattern_ok_update) (simp_all add: length_js_fill)
  with Some ve show ?thesis
    by (simp add: clearTrack_def)
qed

lemma clear_ok:
  assumes "pattern_ok p"
  shows "pattern_ok (clear p)"
proof -
  have m: "is_Map (tracks p)" "is_Map (velocities p)" and inv: "pattern_inv p"
    using assms by (simp_all add: pattern_ok_def)
  have keys: "map fst (tracks (clear p)) = map fst (tracks p)"
    "map fst (velocities (clear p)) = map fst (velocities p)"
    by (simp_all add: clear_def comp_def case_prod_unfold)
  have maps: "is_Map (tracks (clear p))" "is_Map (velocities (clear p))"
    using m by (simp_all add: is_Map_def keys)
  have t: "map_of (tracks (clear p)) k = map_option (\<lambda>tr. js_fill tr 0) (map_of (tracks p) k)"
    and v: "map_of (velocities (clear p)) k = map_option (\<lambda>ve. js_fill ve 1) (map_of (velocities p) k)"
    for k
    by (simp_all add: clear_def map_of_map)
  have st: "steps (clear p) = steps p"
    by (simp add: clear_def)
  have "pattern_inv (clear p)"
    unfolding pattern_inv_iff[OF maps(1)]
  proof (intro allI impI)
    fix n tr' assume "map_of (tracks (clear p)) n = Some tr'"
    then obtain tr where tr: "map_of (tracks p) n = Some tr" "tr' = js_fill tr 0"
      by (auto simp: t)
    from pattern_ok_track[OF assms tr(1)] obtain ve where
      "map_of (velocities p) n = Some ve" "length tr = steps p" "length ve = steps p"
      by blast
    then show "length tr' = steps (clear p) \<and>
        (\<exists>ve. map_of (velocities (clear p)) n = Some ve \<and> length ve = steps (clear p))"
      using tr(2) by (simp add: v st length_js_fill)
  qed
  with maps show ?thesis
    by (simp add: pattern_ok_def)
qed


subsection \<open>Deserialization\<close>

lemma set_update_subset: "set (AList.update k v al) \<subseteq> insert (k, v) (set al)"
  by (induction al) auto

lemma set_fold_update_subset:
  "set (fold (\<lambda>(k, v) m. AList.update k v m) es acc) \<subseteq> set acc \<union> set es"
proof (induction es arbitrary: acc)
  case Nil
  show ?case by simp
next
  case (Cons e es)
  obtain k v where e: "e = (k, v)" by (cases e)
  have "set (fold (\<lambda>(k, v) m. AList.update k v m) es (AList.update k v acc))
      \<subseteq> set (AList.update k v acc) \<union> set es"
    by (rule Cons.IH)
  also have "\<dots> \<subseteq> set acc \<union> set (e # es)"
    using set_update_subset[of k v acc] e by auto
  finally show ?case
    using e by simp
qed

lemma keys_fold_update:
  "fst ` set (fold (\<lambda>(k, v) m. AList.update k (f k v) m) es acc) = fst ` set acc \<union> fst ` set es"
proof (induction es arbitrary: acc)
  case Nil
  show ?case by simp
next
  case (Cons e es)
  obtain k v where e: "e = (k, v)" by (cases e)
  have "fst ` set (fold (\<lambda>(k, v) m. AList.update k (f k v) m) es (AList.update k (f k v) acc))
      = fst ` set (AList.update k (f k v) acc) \<union> fst ` set es"
    by (rule Cons.IH)
  also have "\<dots> = fst ` set acc \<union> fst ` set (e # es)"
    using e by (auto simp: dom_update)
  finally show ?case
    using e by simp
qed

lemma Map_of_entries_member:
  "map_of (Map_of_entries es) n = Some x \<Longrightarrow> (n, x) \<in> set es"
  using set_fold_update_subset[of es "[]"] map_of_SomeD[of "Map_of_entries es" n x]
  by (auto simp: Map_of_entries_def)

lemma Map_of_entries_keys: "fst ` set (Map_of_entries es) = fst ` set es"
  using keys_fold_update[of "\<lambda>k v. v" es "[]"] by (simp add: Map_of_entries_def)

lemma map_of_fold_const:
  "map_of (fold (\<lambda>(n, t) m. AList.update n c m) es acc) k =
     (if k \<in> fst ` set es then Some c else map_of acc k)"
  by (induction es arbitrary: acc) (auto simp: update_conv')

lemma fromJSON_fields:
  "tracks (fromJSON data stamp q) = Map_of_entries (j_tracks data)"
  "steps (fromJSON data stamp q) = j_steps data"
  "velocities (fromJSON data stamp q) =
     (case j_velocities data of
        Some vs \<Rightarrow> Map_of_entries vs
      | None \<Rightarrow> fold (\<lambda>(n, track) m. AList.update n (new_Array_fill (j_steps data) 1) m)
                  (Map_of_entries (j_tracks data)) [])"
  "pid (fromJSON data stamp q) = or_default (j_id data) stamp"
  "name (fromJSON data stamp q) = or_default (j_name data) ''Untitled Pattern''"
  "isNew (fromJSON data stamp q) = (case j_isNew data of None \<Rightarrow> False | Some b \<Rightarrow> b)"
  "timing (fromJSON data stamp q) = (case j_timing data of None \<Rightarrow> timing q | Some t \<Rightarrow> t)"
  "manuallyTriggeredNotes (fromJSON data stamp q) = manuallyTriggeredNotes q"
  "lastStepTriggered (fromJSON data stamp q) = lastStepTriggered q"
  by (simp_all add: fromJSON_def Let_def split: option.splits)

lemma fromJSON_ok:
  assumes "json_wellformed data"
  shows "pattern_ok (fromJSON data stamp q)"
proof -
  let ?r = "fromJSON data stamp q"
  have mt: "is_Map (tracks ?r)"
    by (simp add: fromJSON_fields is_Map_Map_of_entries)
  have mv: "is_Map (velocities ?r)"
  proof (cases "j_velocities data")
    case None
    have "is_Map (fold (\<lambda>(n, track) m. AList.update n (new_Array_fill (j_steps data) (1::real)) m)
                  (Map_of_entries (j_tracks data)) [])"
      using is_Map_fold_update[of "[]" "\<lambda>k v. new_Array_fill (j_steps data) (1::real)"]
      by (simp add: is_Map_def)
    with None show ?thesis by (simp add: fromJSON_fields)
  next
    case (Some vs)
    then show ?thesis by (simp add: fromJSON_fields is_Map_Map_of_entries)
  qed
  have "pattern_inv ?r"
    unfolding pattern_inv_iff[OF mt]
  proof (intro allI impI)
    fix n tr assume "map_of (tracks ?r) n = Some tr"
    then have tr: "map_of (Map_of_entries (j_tracks data)) n = Some tr"
      by (simp add: fromJSON_fields)
    then have mem: "(n, tr) \<in> set (j_tracks data)"
      by (rule Map_of_entries_member)
    then have len: "length tr = j_steps data"
      using assms by (auto simp: json_wellformed_def list_all_iff)
    have "\<exists>ve. map_of (velocities ?r) n = Some ve \<and> length ve = j_steps data"
    proof (cases "j_velocities data")
      case None
      have "n \<in> fst ` set (Map_of_entries (j_tracks data))"
        using mem by (force simp: Map_of_entries_keys)
      with None show ?thesis
        by (simp add: fromJSON_fields map_of_fold_const length_new_Array_fill)
    next
      case (Some vs)
      with assms mem show ?thesis
        by (auto simp: json_wellformed_def list_all_iff fromJSON_fields split: option.splits)
    qed
    with len show "length tr = steps ?r \<and>
        (\<exists>ve. map_of (velocities ?r) n = Some ve \<and> length ve = steps ?r)"
      by (simp add: fromJSON_fields)
  qed
  with mt mv show ?thesis
    by (simp add: pattern_ok_def)
qed

lemma toJSON_wellformed:
  assumes "pattern_ok p"
  shows "json_wellformed (toJSON p)"
proof -
  have m: "is_Map (tracks p)" "is_Map (velocities p)"
    using assms by (simp_all add: pattern_ok_def)
  have "\<And>n tr. (n, tr) \<in> set (tracks p) \<Longrightarrow>
      length tr = steps p \<and> (\<exists>ve. map_of (velocities p) n = Some ve \<and> length ve = steps p)"
    using pattern_ok_track[OF assms] m(1) by (simp add: is_Map_def)
  then show ?thesis
    by (fastforce simp: json_wellformed_def toJSON_def list_all_iff Map_of_entries_id[OF m(2)])
qed


lemma halve_ok:
  assumes "pattern_ok p"
  shows "case halve p of Inr p' \<Rightarrow> pattern_ok p' | Inl e \<Rightarrow> odd (steps p) \<and> 4 < steps p"
proof (cases "steps p \<le> 4")
  case True
  with assms show ?thesis by (simp add: halve_def)
next
  case False
  show ?thesis
  proof (cases "even (steps p)")
    case True
    from halve_result[OF assms _ True] False show ?thesis by auto
  next
    case odd: False
    with False show ?thesis by (simp add: halve_def)
  qed
qed

lemma double_ok:
  assumes "pattern_ok p"
  shows "\<exists>p'. double p = Inr p' \<and> pattern_ok p'"
proof (cases "steps p < 64")
  case True
  from double_result[OF assms True] show ?thesis by blast
next
  case False
  with assms show ?thesis by (simp add: double_def)
qed

text \<open>
  Claim C9, amended: a pattern whose tracks and velocity arrays all have the pattern's
  step count keeps that property under \<^verbatim>\<open>addTrack\<close>, \<^verbatim>\<open>clear\<close>, \<^verbatim>\<open>clearTrack\<close>, \<^verbatim>\<open>shift\<close>
  and \<^verbatim>\<open>double\<close>, none of which raises; under \<^verbatim>\<open>recordNote\<close> when the step index is below
  the step count; under \<^verbatim>\<open>halve\<close>, which raises only for an odd step count above 4; and
  under \<^verbatim>\<open>fromJSON\<close> when the record read was made by \<^verbatim>\<open>toJSON\<close> from such a pattern or,
  more generally, has arrays of its own step count.
\<close>

theorem pattern_invariant_preserved:
  assumes "pattern_ok p"
  shows "pattern_ok (addTrack n p)
       \<and> (step < steps p \<longrightarrow> (\<exists>p'. recordNote n step v p = Inr p' \<and> pattern_ok p'))
       \<and> pattern_ok (clear p)
       \<and> (\<exists>p'. clearTrack n p = Inr p' \<and> pattern_ok p')
       \<and> (\<exists>p'. shift a p = Inr p' \<and> pattern_ok p')
       \<and> (\<exists>p'. double p = Inr p' \<and> pattern_ok p')
       \<and> (case halve p of Inr p' \<Rightarrow> pattern_ok p' | Inl e \<Rightarrow> odd (steps p) \<and> 4 < steps p)
       \<and> pattern_ok (fromJSON (toJSON p) stamp q)
       \<and> (json_wellformed data \<longrightarrow> pattern_ok (fromJSON data stamp q))"
proof -
  have r: "step < steps p \<longrightarrow> (\<exists>p'. recordNote n step v p = Inr p' \<and> pattern_ok p')"
    using recordNote_ok[OF assms, of step n v] by blast
  have s: "\<exists>p'. shift a p = Inr p' \<and> pattern_ok p'"
    using shift_result[OF assms, of a] by blast
  have j: "pattern_ok (fromJSON (toJSON p) stamp q)"
    by (rule fromJSON_ok[OF toJSON_wellformed[OF assms]])
  have g: "json_wellformed data \<longrightarrow> pattern_ok (fromJSON data stamp q)"
    by (simp add: fromJSON_ok)
  from addTrack_ok[OF assms, of n] r clear_ok[OF assms] clearTrack_ok[OF assms, of n] s
    double_ok[OF assms] halve_ok[OF assms] j g
  show ?thesis
    by (intro conjI)
qed

lemma new_Pattern_ok: "pattern_ok (new_Pattern st nm stamp)"
  by (simp add: new_Pattern_def pattern_ok_def is_Map_def pattern_inv_def)

text \<open>Witness for C9: a new 32-step pattern, recording note 60 at step 5.\<close>

theorem pattern_invariant_preserved_witness:
  "pattern_ok (new_Pattern 32 ''Untitled'' ''0'')
   \<and> (5::nat) < steps (new_Pattern 32 ''Untitled'' ''0'')
   \<and> (\<exists>p'. recordNote 60 5 0.8 (new_Pattern 32 ''Untitled'' ''0'') = Inr p' \<and> pattern_ok p')
   \<and> (\<exists>p'. double (new_Pattern 32 ''Untitled'' ''0'') = Inr p' \<and> pattern_ok p')"
proof -
  have s: "(5::nat) < steps (new_Pattern 32 ''Untitled'' ''0'')"
    by (simp add: new_Pattern_def)
  have ok: "pattern_ok (new_Pattern 32 ''Untitled'' ''0'')"
    by (rule new_Pattern_ok)
  from pattern_invariant_preserved [OF ok, where n = 60 and step = 5 and v = "0.8"] s ok
  show ?thesis
    by blast
qed

text \<open>
  Claim C9 as stated fails: \<^verbatim>\<open>recordNote(60, 40, 0.8)\<close> on a new 32-step pattern is
  neither clamped nor rejected; it returns a pattern of 32 steps whose track and velocity
  array for note 60 have 41 cells. \<^verbatim>\<open>fromJSON\<close> takes a record with a two-cell track and a
  step count of 32 as it is.
\<close>

theorem recordNote_out_of_range_breaks_invariant:
  "pattern_ok (new_Pattern 32 ''Untitled'' ''0'')
   \<and> map_sum id pattern_inv (recordNote 60 40 0.8 (new_Pattern 32 ''Untitled'' ''0'')) = Inr False
   \<and> map_sum id steps (recordNote 60 40 0.8 (new_Pattern 32 ''Untitled'' ''0'')) = Inr 32
   \<and> map_sum id (map (length \<circ> snd) \<circ> tracks)
        (recordNote 60 40 0.8 (new_Pattern 32 ''Untitled'' ''0'')) = Inr [41]
   \<and> map_sum id (map (length \<circ> snd) \<circ> velocities)
        (recordNote 60 40 0.8 (new_Pattern 32 ''Untitled'' ''0'')) = Inr [41]
   \<and> \<not> pattern_inv
        (fromJSON \<lparr>j_id = Some ''1'', j_name = Some ''A'', j_steps = 32,
                   j_tracks = [(60, [Some 1, Some 0])], j_velocities = None,
                   j_timing = None, j_isNew = None\<rparr>
           ''0'' (new_Pattern 32 ''Untitled'' ''0''))"
proof -
  have "pattern_ok (new_Pattern 32 ''Untitled'' ''0'')"
    by (rule new_Pattern_ok)
  then show ?thesis
    by (simp add: recordNote_def new_Pattern_def Let_def pattern_inv_def
        js_put_def new_Array_fill_def fromJSON_def Map_of_entries_def or_default_def)
qed

subsection \<open>Recording and the serialization round trip\<close>

lemma recordNote_maps:
  assumes "is_Map (tracks p)" and "is_Map (velocities p)" and "recordNote n step v p = Inr p'"
  shows "is_Map (tracks p') \<and> is_Map (velocities p')"
  using assms
  by (auto simp: recordNote_def Let_def is_Map_update split: option.splits if_splits)

lemma fromJSON_toJSON:
  assumes "is_Map (tracks p)" and "is_Map (velocities p)"
  shows "fromJSON (toJSON p) stamp q =
     p\<lparr>pid := (if pid p = [] then stamp else pid p),
       name := (if name p = [] then ''Untitled Pattern'' else name p),
       manuallyTriggeredNotes := manuallyTriggeredNotes q,
       lastStepTriggered := lastStepTriggered q\<rparr>"
  using assms
  by (simp add: fromJSON_def toJSON_def Let_def or_default_def Map_of_entries_id)

lemma default_velocities:
  assumes "j_velocities data = None"
  shows "getVelocity (fromJSON data stamp q) n i = 1"
    and "n \<in> fst ` set (j_tracks data) \<Longrightarrow>
         map_of (velocities (fromJSON data stamp q)) n = Some (new_Array_fill (j_steps data) 1)"
proof -
  have v: "map_of (velocities (fromJSON data stamp q)) n =
      (if n \<in> fst ` set (j_tracks data) then Some (new_Array_fill (j_steps data) 1) else None)"
    using assms by (simp add: fromJSON_fields map_of_fold_const Map_of_entries_keys)
  then show "getVelocity (fromJSON data stamp q) n i = 1"
    by (simp add: getVelocity_def js_get_new_Array_fill)
  show "n \<in> fst ` set (j_tracks data) \<Longrightarrow>
         map_of (velocities (fromJSON data stamp q)) n = Some (new_Array_fill (j_steps data) 1)"
    using v by simp
qed

text \<open>
  Claim C7, amended: \<^verbatim>\<open>recordNote(60, 5, 0.8)\<close> returns, and reading step 5 of note 60
  afterwards gives active = true and velocity 0.8. Serializing the pattern and
  deserializing into a new pattern gives back the step count, tracks, velocities, timing
  and \<^verbatim>\<open>isNew\<close> flag unchanged, and the id and the name unchanged when they are not empty
  (an empty name becomes ``Untitled Pattern'', an empty id the current time stamp), so
  every read of a step gives the same result; the set of manually triggered notes is not
  serialized. A record without velocities deserializes to velocity 1.0 at every step.
\<close>

theorem record_roundtrip:
  assumes "is_Map (tracks p)" and "is_Map (velocities p)"
    and "map_of (tracks p) 60 \<noteq> None \<longrightarrow> map_of (velocities p) 60 \<noteq> None"
  shows "\<exists>p'. recordNote 60 5 0.8 p = Inr p'
          \<and> getNoteParams p' 60 5 = (True, 0.8)
          \<and> fromJSON (toJSON p') stamp (new_Pattern st nm stamp') =
              p'\<lparr>pid := (if pid p' = [] then stamp else pid p'),
                 name := (if name p' = [] then ''Untitled Pattern'' else name p'),
                 manuallyTriggeredNotes := {}, lastStepTriggered := - 1\<rparr>
          \<and> (\<forall>n i. getNoteParams (fromJSON (toJSON p') stamp (new_Pattern st nm stamp')) n i
                    = getNoteParams p' n i)
          \<and> (\<forall>data q n i. j_velocities data = None \<longrightarrow>
                getVelocity (fromJSON data stamp q) n i = 1)"
proof -
  from recordNote_read[OF assms(3), of 5 "0.8"] obtain p' where
    p': "recordNote 60 5 0.8 p = Inr p'" "getStep p' 60 5 = 1"
      "getVelocity p' 60 5 = max 0.1 (min 1 0.8)"
    by blast
  have params: "getNoteParams p' 60 5 = (True, 0.8)"
    using p'(2,3) by (simp add: getNoteParams_def)
  from recordNote_maps[OF assms(1,2) p'(1)] have m: "is_Map (tracks p')" "is_Map (velocities p')"
    by simp_all
  let ?r = "fromJSON (toJSON p') stamp (new_Pattern st nm stamp')"
  have rt: "?r = p'\<lparr>pid := (if pid p' = [] then stamp else pid p'),
                 name := (if name p' = [] then ''Untitled Pattern'' else name p'),
                 manuallyTriggeredNotes := {}, lastStepTriggered := - 1\<rparr>"
    using fromJSON_toJSON[OF m, of stamp "new_Pattern st nm stamp'"]
    by (simp add: new_Pattern_def)
  have same: "\<forall>n i. getNoteParams ?r n i = getNoteParams p' n i"
    unfolding rt by (simp add: getNoteParams_def getStep_def getVelocity_def)
  have dflt: "\<forall>data q n i. j_velocities data = None \<longrightarrow>
                getVelocity (fromJSON data stamp q) n i = 1"
    by (simp add: default_velocities(1))
  from p'(1) params rt same dflt show ?thesis
    by (intro exI[of _ p'] conjI)
qed

text \<open>Witness for C7: a new 32-step pattern.\<close>

theorem record_roundtrip_witness:
  "is_Map (tracks (new_Pattern 32 ''Untitled'' ''17''))
   \<and> is_Map (velocities (new_Pattern 32 ''Untitled'' ''17''))
   \<and> (\<exists>p'. recordNote 60 5 0.8 (new_Pattern 32 ''Untitled'' ''17'') = Inr p'
          \<and> getNoteParams p' 60 5 = (True, 0.8)
          \<and> getNoteParams (fromJSON (toJSON p') ''18'' (new_Pattern 32 ''Untitled'' ''18'')) 60 5
              = (True, 0.8))"
proof -
  have a: "is_Map (tracks (new_Pattern 32 ''Untitled'' ''17''))"
    and b: "is_Map (velocities (new_Pattern 32 ''Untitled'' ''17''))"
    and c: "map_of (tracks (new_Pattern 32 ''Untitled'' ''17'')) 60 \<noteq> None
            \<longrightarrow> map_of (velocities (new_Pattern 32 ''Untitled'' ''17'')) 60 \<noteq> None"
    by (simp_all add: new_Pattern_def is_Map_def)
  from record_roundtrip [OF a b c, of "''18''" 32 "''Untitled''" "''18''"] a b
  show ?thesis
    by metis
qed

text \<open>
  Claim C7 as stated (the round trip keeps the name) fails for a pattern with the empty
  name: after recording note 60 at step 5 the name is still empty, and the deserialized
  pattern is called ``Untitled Pattern''.
\<close>

theorem roundtrip_replaces_empty_name:
  "map_sum id name (recordNote 60 5 0.8 (new_Pattern 32 [] ''17'')) = Inr []
   \<and> map_sum id (\<lambda>p'. name (fromJSON (toJSON p') ''18'' (new_Pattern 32 ''Untitled'' ''18'')))
        (recordNote 60 5 0.8 (new_Pattern 32 [] ''17'')) = Inr ''Untitled Pattern''"
  by (simp add: recordNote_def new_Pattern_def Let_def fromJSON_def toJSON_def or_default_def)

section \<open>Properties of the sound trigger engine\<close>

subsection \<open>Velocity and gain\<close>

lemma triggerSound_gain:
  assumes "triggerSound n v t now m = (Started info, m')"
  shows "si_gain info = 0.7"
  using assms
  by (auto simp: triggerSound_def Let_def split: option.splits if_splits)

text \<open>
  Claim C5 (the gain of a new voice is the square-root curve of the velocity passed to the
  trigger call, scaled to the headroom). Evaluated on a loaded two-second sample: the
  calls with velocity 1/4 and with velocity 1 start voices with the same gain 0.7, where
  the curve gives 0.35 for velocity 1/4.
\<close>

theorem triggerSound_ignores_velocity:
  "fst (triggerSound 36 (1/4) 0 0 (loaded 2)) =
     Started \<lparr>si_startTime = 0, si_duration = 2, si_endTime = 2, si_gain = 7/10, si_offset = 0\<rparr>
   \<and> fst (triggerSound 36 1 0 0 (loaded 2)) =
     Started \<lparr>si_startTime = 0, si_duration = 2, si_endTime = 2, si_gain = 7/10, si_offset = 0\<rparr>
   \<and> min (sqrt (1/4)) 1 * 0.7 = (7/20 :: real)"
proof -
  have "sqrt (1/4) = 1/2"
    by (simp add: real_sqrt_divide)
  then show ?thesis
    by (simp add: triggerSound_def loaded_def recentTriggers_def Let_def)
qed

text \<open>The voices of the beat sequencer of version 3.7 have a gain linear in the velocity.\<close>

lemma scheduleSampleAtTime_linear:
  "smps n = Some smp \<Longrightarrow>
   map_option sch_gain (scheduleSampleAtTime smps n v t) = Some (v / 127 * gain37 smp)"
  by (simp add: scheduleSampleAtTime_def)

subsection \<open>Trim regions\<close>

text \<open>
  Claim C10 (an inverted trim region gives a negative playback duration). For a loaded
  sample of positive duration and every \<open>start > end\<close> with \<open>0 < end < 1\<close>: after
  \<^verbatim>\<open>setSampleRange(note, start, end)\<close> the stored start (clamped to at most 1) is above
  the stored end, and a trigger of the note that is not debounced starts a voice whose
  duration, as passed to \<^verbatim>\<open>source.start\<close>, is \<open>buffer.duration * (end - start)\<close> for the
  stored bounds, a negative number.
\<close>

theorem inverted_trim_negative_duration:
  assumes "samples m n = Some smp" and "0 < buffer_duration smp"
    and "0 < e" and "e < s" and "e < 1"
    and "recentTriggers now n m = []"
  shows "\<exists>info m'. triggerSound n v t now (setSampleRange n s e m) = (Started info, m')
          \<and> map_option sample_start (samples (setSampleRange n s e m) n) = Some (min s 1)
          \<and> map_option sample_end (samples (setSampleRange n s e m) n) = Some e
          \<and> e < min s 1
          \<and> si_duration info = buffer_duration smp * (e - min s 1)
          \<and> si_duration info < 0
          \<and> si_offset info = buffer_duration smp * min s 1"
proof -
  let ?m = "setSampleRange n s e m"
  have cl: "0 < min s 1" "min e 1 = e" "e < min s 1" "min s 1 \<noteq> 0" "e \<noteq> 0"
    using assms(3-5) by auto
  have "max 0 (min s 1) = min s 1" "max 0 (min e 1) = e"
    using cl(1,2) assms(3) by (simp_all only: max_absorb2 less_imp_le)
  then have smp': "samples ?m n = Some (smp\<lparr>sample_start := min s 1, sample_end := e\<rparr>)"
    using assms(1) by (simp only: setSampleRange_def option.case) simp
  have pl: "recentTriggers now n ?m = []"
    using assms(1,6) by (simp add: recentTriggers_def setSampleRange_def)
  let ?info = "\<lparr>si_startTime = t, si_duration = buffer_duration smp * e - buffer_duration smp * min s 1,
      si_endTime = t + (buffer_duration smp * e - buffer_duration smp * min s 1),
      si_gain = min (sqrt 1) 1 * 0.7, si_offset = buffer_duration smp * min s 1\<rparr>"
  have tr: "fst (triggerSound n v t now ?m) = Started ?info"
    using smp' pl cl by (simp add: triggerSound_def Let_def)
  have neg: "buffer_duration smp * (e - min s 1) < 0"
    using assms(2) cl(3) by (simp add: mult_less_0_iff)
  have "triggerSound n v t now ?m = (Started ?info, snd (triggerSound n v t now ?m))"
    using tr by (metis prod.collapse)
  moreover have "si_duration ?info = buffer_duration smp * (e - min s 1)"
    by (simp add: algebra_simps)
  ultimately show ?thesis
    using smp' cl(3) neg by (intro exI[of _ ?info] exI[of _ "snd (triggerSound n v t now ?m)"]) simp
qed

text \<open>Witness for C10: a two-second sample trimmed to start 0.8 and end 0.2.\<close>

theorem inverted_trim_negative_duration_witness:
  "samples (loaded 2) 36 = Some \<lparr>buffer_duration = 2, sample_start = 0, sample_end = 1\<rparr>
   \<and> recentTriggers 0 36 (loaded 2) = []
   \<and> (\<exists>info m'. triggerSound 36 1 0 0 (setSampleRange 36 (4/5) (1/5) (loaded 2)) = (Started info, m')
          \<and> si_duration info = 2 * (1/5 - min (4/5) 1)
          \<and> si_duration info < 0)"
proof -
  have a: "samples (loaded 2) 36 = Some \<lparr>buffer_duration = 2, sample_start = 0, sample_end = 1\<rparr>"
    and b: "recentTriggers 0 36 (loaded 2) = []"
    by (simp_all add: loaded_def recentTriggers_def)
  have c: "0 < buffer_duration \<lparr>buffer_duration = 2, sample_start = 0, sample_end = 1\<rparr>"
    by simp
  from inverted_trim_negative_duration [OF a c _ _ _ b, of "1/5" "4/5" 1 0]
  have "\<exists>info m'. triggerSound 36 1 0 0 (setSampleRange 36 (4/5) (1/5) (loaded 2)) = (Started info, m')
          \<and> si_duration info = 2 * (1/5 - min (4/5) 1)
          \<and> si_duration info < 0"
    by simp blast
  with a b show ?thesis
    by blast
qed


end
